theory Spec2Isabelle
  imports Main "HOL-Library.Sublist"
begin

section \<open>Texts\<close>

text \<open>
  A JavaScript string is modelled as a \<^typ>\<open>string\<close>, one \<^typ>\<open>char\<close> per code unit,
  so the texts of the model are those of code units below 256. The code of
  \<^verbatim>\<open>App.tsx\<close> tells apart the backtick, the newline, the word characters of
  \<^verbatim>\<open>\w\<close> and the white space removed by \<^verbatim>\<open>trim\<close>; every other code unit is
  treated alike.
\<close>

definition fence :: string where
  "fence = [CHR 0x60, CHR 0x60, CHR 0x60]"

definition newline :: char where
  "newline = CHR 0x0A"

text \<open>\<^verbatim>\<open>s.startsWith(p)\<close>\<close>

definition startsWith :: "string \<Rightarrow> string \<Rightarrow> bool" where
  "startsWith s p = prefix p s"

text \<open>The character class \<^verbatim>\<open>\w\<close>, that is \<^verbatim>\<open>[A-Za-z0-9_]\<close>.\<close>

definition is_word_char :: "char \<Rightarrow> bool" where
  "is_word_char c =
     (let n = (of_char c :: nat)
      in (65 \<le> n \<and> n \<le> 90) \<or> (97 \<le> n \<and> n \<le> 122) \<or> (48 \<le> n \<and> n \<le> 57) \<or> n = 95)"

text \<open>
  \<^verbatim>\<open>toLowerCase\<close>. The code applies it to the captured group \<^verbatim>\<open>(\w*)\<close> only
  (\<open>render_part_language\<close> below), so the table holds the ASCII letters.
\<close>

definition toLowerCase_char :: "char \<Rightarrow> char" where
  "toLowerCase_char c =
     (case map_of (zip ''ABCDEFGHIJKLMNOPQRSTUVWXYZ'' ''abcdefghijklmnopqrstuvwxyz'') c of
        Some l \<Rightarrow> l
      | None \<Rightarrow> c)"

definition toLowerCase :: "string \<Rightarrow> string" where
  "toLowerCase s = map toLowerCase_char s"

text \<open>
  White space and line terminators of \<^verbatim>\<open>String.prototype.trim\<close> among the code units
  below 256: TAB, LF, VT, FF, CR, SP and NBSP.
\<close>

definition is_space :: "char \<Rightarrow> bool" where
  "is_space c = ((of_char c :: nat) \<in> {9, 10, 11, 12, 13, 32, 160})"

definition trim :: "string \<Rightarrow> string" where
  "trim s = rev (dropWhile is_space (rev (dropWhile is_space s)))"


section \<open>Segmentation of the streamed response\<close>

subsection \<open>The split pattern\<close>

text \<open>
  \<^verbatim>\<open>[\s\S]*?```\<close> at the head of a text: the lazy quantifier takes no character if the
  closing fence follows immediately and otherwise one more character at a time. The result
  is the text consumed before the closing fence and the text left after it.
\<close>

fun lazy_until_fence :: "string \<Rightarrow> (string \<times> string) option" where
  "lazy_until_fence [] = None"
| "lazy_until_fence (c # cs) =
     (if startsWith (c # cs) fence then Some ([], drop 3 (c # cs))
      else map_option (\<lambda>(m, r). (c # m, r)) (lazy_until_fence cs))"

text \<open>
  The pattern \<^verbatim>\<open>/(```[\s\S]*?```)/\<close> tried at the head of a text: the matched span (which
  is also the captured group) and the rest of the text.
\<close>

definition match_fence :: "string \<Rightarrow> (string \<times> string) option" where
  "match_fence s =
     (if startsWith s fence
      then map_option (\<lambda>(m, r). (fence @ m @ fence, r)) (lazy_until_fence (drop 3 s))
      else None)"

lemma length_fence: "length fence = 3"
  by (simp add: fence_def)

lemma startsWith_fence_drop: "startsWith s fence \<Longrightarrow> s = fence @ drop 3 s"
  by (auto simp: startsWith_def prefix_def length_fence)

lemma lazy_until_fence_hit:
  "startsWith s fence \<Longrightarrow> lazy_until_fence s = Some ([], drop 3 s)"
  by (cases s) (simp_all add: startsWith_def fence_def)

lemma lazy_until_fence_miss:
  "\<not> startsWith (c # cs) fence \<Longrightarrow>
     lazy_until_fence (c # cs) = map_option (\<lambda>(m, r). (c # m, r)) (lazy_until_fence cs)"
  by simp

lemma lazy_until_fence_shape:
  "lazy_until_fence s = Some (m, r) \<Longrightarrow> s = m @ fence @ r"
proof (induction s arbitrary: m)
  case Nil
  then show ?case by simp
next
  case (Cons c cs)
  show ?case
  proof (cases "startsWith (c # cs) fence")
    case True
    from lazy_until_fence_hit [OF True] Cons.prems
    have "m = [] \<and> r = drop 3 (c # cs)" by simp
    with startsWith_fence_drop [OF True] show ?thesis by (metis append_Nil)
  next
    case False
    with Cons.prems obtain m' where "lazy_until_fence cs = Some (m', r)" and "m = c # m'"
      by auto
    with Cons.IH show ?thesis by simp
  qed
qed

lemma match_fence_Some:
  "match_fence s = Some (f, r) \<longleftrightarrow>
     startsWith s fence \<and> (\<exists>m. lazy_until_fence (drop 3 s) = Some (m, r) \<and> f = fence @ m @ fence)"
  by (auto simp: match_fence_def)

lemma match_fence_shape:
  "match_fence s = Some (f, r) \<Longrightarrow> s = f @ r"
proof -
  assume "match_fence s = Some (f, r)"
  then obtain m where sw: "startsWith s fence"
    and l: "lazy_until_fence (drop 3 s) = Some (m, r)" and f: "f = fence @ m @ fence"
    by (auto simp: match_fence_Some)
  from lazy_until_fence_shape [OF l] have "fence @ drop 3 s = fence @ m @ fence @ r" by simp
  with startsWith_fence_drop [OF sw] f show ?thesis by simp
qed

lemma match_fence_shorter:
  "match_fence s = Some (f, r) \<Longrightarrow> length r < length s"
proof -
  assume a: "match_fence s = Some (f, r)"
  from match_fence_shape [OF a] have "length s = length f + length r" by simp
  moreover from a have "length f \<ge> 3"
    by (auto simp: match_fence_Some length_fence)
  ultimately show ?thesis by (cases f) simp_all
qed

text \<open>Putting a character in front of the first element of a list of segments.\<close>

fun push_char :: "char \<Rightarrow> string list \<Rightarrow> string list" where
  "push_char c [] = [[c]]"
| "push_char c (p # ps) = (c # p) # ps"

text \<open>
  \<^verbatim>\<open>responseText.split(/(```[\s\S]*?```)/g)\<close>. The split of ECMAScript scans the text
  from left to right. Where the pattern matches, it emits the text collected since the last
  match (possibly empty), then the captured group, and goes on behind the match; where it
  does not match, the character joins the text being collected. At the end the collected
  text is emitted, also when it is empty. The pattern never matches the empty string, so
  the split of the empty text is the list holding the empty text.
  \<open>split_fences s\<close> is the list for the text from the current position on; its head is the
  text being collected.
\<close>

function split_fences :: "string \<Rightarrow> string list" where
  "split_fences s =
     (case match_fence s of
        Some (f, r) \<Rightarrow> [] # f # split_fences r
      | None \<Rightarrow> (case s of [] \<Rightarrow> [[]] | c # cs \<Rightarrow> push_char c (split_fences cs)))"
  by pat_completeness auto
termination
  by (relation "measure length") (auto simp: match_fence_shorter)

declare split_fences.simps [simp del]

subsection \<open>The fence pattern applied to a segment\<close>

text \<open>
  \<^verbatim>\<open>/```(\w*)\n([\s\S]+?)```/\<close> tried at the head of a text; the result holds the two
  captured groups. The greedy \<^verbatim>\<open>\w*\<close> takes every word character; giving one back
  cannot help, since a newline must follow and a word character is none. The lazy
  \<^verbatim>\<open>[\s\S]+?\<close> takes one character and then goes on as \<^verbatim>\<open>[\s\S]*?\<close> does.
\<close>

definition match_code_at :: "string \<Rightarrow> (string \<times> string) option" where
  "match_code_at s =
     (if startsWith s fence
      then (let lang = takeWhile is_word_char (drop 3 s);
                r = dropWhile is_word_char (drop 3 s)
            in case r of
                 [] \<Rightarrow> None
               | c # r' \<Rightarrow>
                   if c = newline
                   then (case r' of
                           [] \<Rightarrow> None
                         | d # r'' \<Rightarrow> map_option (\<lambda>(m, _). (lang, d # m)) (lazy_until_fence r''))
                   else None)
      else None)"

text \<open>
  \<^verbatim>\<open>part.match(...)\<close> without the global flag: the leftmost position of the text at
  which the pattern matches.
\<close>

fun match_code :: "string \<Rightarrow> (string \<times> string) option" where
  "match_code [] = match_code_at []"
| "match_code (c # cs) =
     (case match_code_at (c # cs) of Some g \<Rightarrow> Some g | None \<Rightarrow> match_code cs)"

subsection \<open>Rendering\<close>

text \<open>\<^verbatim>\<open>part.split('\n')\<close>\<close>

fun split_lines :: "string \<Rightarrow> string list" where
  "split_lines [] = [[]]"
| "split_lines (c # cs) =
     (if c = newline then [] # split_lines cs else push_char c (split_lines cs))"

text \<open>
  The element rendered for one segment: \<^verbatim>\<open><pre><code>{part}</code></pre>\<close>, the component
  \<^verbatim>\<open>CodeBlock\<close> with its properties \<^verbatim>\<open>language\<close> and \<^verbatim>\<open>code\<close>, or a fragment
  of one paragraph per line.
\<close>

datatype rendered =
    Pre string
  | CodeBlock (language: string) (code: string)
  | Fragment "string list"

definition render_part :: "string \<Rightarrow> rendered" where
  "render_part part =
     (if startsWith part fence
      then (case match_code part of
              None \<Rightarrow> Pre part
            | Some (lang, body) \<Rightarrow> CodeBlock lang body)
      else Fragment (split_lines part))"

text \<open>The body of the loop of \<^verbatim>\<open>handleChatSubmit\<close> that derives \<^verbatim>\<open>rendered\<close>.\<close>

definition segment :: "string \<Rightarrow> rendered list" where
  "segment responseText = map render_part (split_fences responseText)"

text \<open>\<^verbatim>\<open>isHtml\<close> of the component \<^verbatim>\<open>CodeBlock\<close>: the Run button is shown iff it holds.\<close>

definition isHtml :: "rendered \<Rightarrow> bool" where
  "isHtml b = (case b of CodeBlock lang _ \<Rightarrow> toLowerCase lang = ''html'' | _ \<Rightarrow> False)"


subsection \<open>Notions used in the statements\<close>

text \<open>A text in which the split pattern matches at no position.\<close>

definition fence_free :: "string \<Rightarrow> bool" where
  "fence_free s = (\<forall>n. match_fence (drop n s) = None)"

text \<open>
  The pattern of a complete fenced block in the words of the specification: three
  backticks, an optional language tag, a newline, arbitrary content, three backticks. The
  words leave the alphabet of the tag open; here the tag is whatever stands between the
  opening fence and the first newline, and the content may be empty.
\<close>

definition spec_fence_pattern :: "string \<Rightarrow> bool" where
  "spec_fence_pattern p =
     (startsWith p fence \<and>
      (case dropWhile (\<lambda>c. c \<noteq> newline) (drop 3 p) of
         [] \<Rightarrow> False
       | c # rest \<Rightarrow> 3 \<le> length rest \<and> drop (length rest - 3) rest = fence))"

text \<open>
  A fence left open at the end of a text, with the triples of backticks paired from left
  to right as the split pattern pairs them: an opening triple with no triple behind it is
  open; an opening triple with a closing one is skipped together with it.
\<close>

function fence_open :: "string \<Rightarrow> bool" where
  "fence_open s =
     (if startsWith s fence
      then (case lazy_until_fence (drop 3 s) of
              None \<Rightarrow> True
            | Some (m, r) \<Rightarrow> fence_open r)
      else (case s of [] \<Rightarrow> False | c # cs \<Rightarrow> fence_open cs))"
  by pat_completeness auto
termination
proof (relation "measure length")
  show "wf (measure length)" by simp
next
  fix s :: string and x2 m r
  assume "lazy_until_fence (drop 3 s) = Some x2" and "(m, r) = x2"
  then have "lazy_until_fence (drop 3 s) = Some (m, r)" by simp
  from lazy_until_fence_shape [OF this] have "length (drop 3 s) = length m + 3 + length r"
    by (simp add: length_fence)
  then show "(r, s) \<in> measure length" by simp
next
  fix s :: string and c cs
  assume "s = c # cs"
  then show "(cs, s) \<in> measure length" by simp
qed

declare fence_open.simps [simp del]


section \<open>The edit history\<close>

record ImageFile =
  mimeType :: string
  data :: string

text \<open>
  Modelled from the spec: the hook \<^verbatim>\<open>useImageHistory\<close> (\<^verbatim>\<open>./hooks/useImageHistory\<close>) is
  imported by \<^verbatim>\<open>App.tsx\<close> and is not among the sources. The spec describes it as
  EditHistory, with the ordered sequence \<open>entries\<close>, \<open>original\<close> (the first entry since
  the last reset, or absent) and \<open>current\<close> (the last entry, or absent).
\<close>

record EditHistory =
  entries :: "ImageFile list"
  original :: "ImageFile option"
  current :: "ImageFile option"

text \<open>Modelled from the spec: the missing hook's initial state; the history is created empty.\<close>

definition empty_history :: EditHistory where
  "empty_history = \<lparr>entries = [], original = None, current = None\<rparr>"

text \<open>Modelled from the spec: \<open>canUndo = entries.length > 1\<close> of the missing hook.\<close>

definition canUndo :: "EditHistory \<Rightarrow> bool" where
  "canUndo h = (length (entries h) > 1)"

text \<open>Modelled from the spec: \<open>isImageLoaded\<close> of the missing hook, \<open>entries.length > 0\<close>.\<close>

definition isImageLoaded :: "EditHistory \<Rightarrow> bool" where
  "isImageLoaded h = (length (entries h) > 0)"

text \<open>
  Modelled from the spec: \<open>reset(image)\<close> of the missing hook replaces the history by the
  single entry; \<open>original\<close> and \<open>current\<close> both equal the image.
\<close>

definition reset :: "ImageFile \<Rightarrow> EditHistory \<Rightarrow> EditHistory" where
  "reset img h = \<lparr>entries = [img], original = Some img, current = Some img\<rparr>"

text \<open>
  Modelled from the spec: \<open>push(image)\<close> of the missing hook appends and \<open>current\<close>
  updates; \<open>original\<close> is the first entry since the last reset.
\<close>

definition push :: "ImageFile \<Rightarrow> EditHistory \<Rightarrow> EditHistory" where
  "push img h =
     \<lparr>entries = entries h @ [img],
      original = (if entries h = [] then Some img else original h),
      current = Some img\<rparr>"

text \<open>
  Modelled from the spec: \<open>undo()\<close> of the missing hook removes the last entry if
  \<open>canUndo\<close>, \<open>current\<close> going back to the prior entry, and is a no-op otherwise.
\<close>

definition undo :: "EditHistory \<Rightarrow> EditHistory" where
  "undo h =
     (if canUndo h
      then h\<lparr>entries := butlast (entries h), current := Some (last (butlast (entries h)))\<rparr>
      else h)"

text \<open>\<open>undo\<close> repeated until \<open>canUndo\<close> is false.\<close>

function undo_all :: "EditHistory \<Rightarrow> EditHistory" where
  "undo_all h = (if canUndo h then undo_all (undo h) else h)"
  by pat_completeness auto
termination
  by (relation "measure (\<lambda>h. length (entries h))") (auto simp: canUndo_def undo_def)

declare undo_all.simps [simp del]

datatype history_op = Reset ImageFile | Push ImageFile | Undo

fun apply_op :: "EditHistory \<Rightarrow> history_op \<Rightarrow> EditHistory" where
  "apply_op h (Reset img) = reset img h"
| "apply_op h (Push img) = push img h"
| "apply_op h Undo = undo h"

text \<open>
  The invariant of the spec's data model: \<open>original\<close> is \<open>entries[0]\<close> whenever the
  entries are not empty, \<open>current\<close> is the last entry, \<open>canUndo = entries.length > 1\<close>.
\<close>

definition history_inv :: "EditHistory \<Rightarrow> bool" where
  "history_inv h =
     ((entries h \<noteq> [] \<longrightarrow> original h = Some (entries h ! 0)) \<and>
      current h = (if entries h = [] then None else Some (last (entries h))) \<and>
      canUndo h = (length (entries h) > 1))"


text \<open>The states reached from the empty history keep no original without an entry.\<close>

definition history_ok :: "EditHistory \<Rightarrow> bool" where
  "history_ok h = (history_inv h \<and> (entries h = [] \<longrightarrow> original h = None))"

section \<open>The application state\<close>

text \<open>
  The value a \<^verbatim>\<open>catch\<close> block receives (\<^verbatim>\<open>err: any\<close>), as far as the handlers read
  it. They evaluate \<^verbatim>\<open>err.message\<close>: on \<^verbatim>\<open>null\<close> and \<^verbatim>\<open>undefined\<close> (\<open>Nullish\<close>) the
  property access itself throws a \<^verbatim>\<open>TypeError\<close>; every other value (\<open>Thrown\<close>) yields its
  message, \<open>None\<close> where it has none.
\<close>

datatype js_error = Nullish | Thrown "string option"

text \<open>\<^verbatim>\<open>message || d\<close>: an absent message and the empty string are falsy.\<close>

definition message_or :: "string option \<Rightarrow> string \<Rightarrow> string" where
  "message_or message d =
     (case message of None \<Rightarrow> d | Some m \<Rightarrow> if m = [] then d else m)"

text \<open>
  How the promise of an \<^verbatim>\<open>async\<close> handler settles: it is fulfilled, or it is rejected
  with the \<^verbatim>\<open>TypeError\<close> that \<^verbatim>\<open>err.message\<close> raised inside the \<^verbatim>\<open>catch\<close> block (the
  \<^verbatim>\<open>finally\<close> block still runs).
\<close>

datatype outcome = Fulfilled | Rejected_TypeError

text \<open>The session handle returned by \<^verbatim>\<open>geminiService.createChatSession()\<close>.\<close>

type_synonym Chat = nat

datatype role = User | Model

text \<open>
  The React nodes stored in \<^verbatim>\<open>renderedContent\<close>: a string, a paragraph, the red error
  paragraph, a paragraph followed by the preview of an attached image (its object URL and
  its name) or by the name of another attachment, and the \<^verbatim>\<open><div>\<close> around the
  rendered segments of a response.
\<close>

datatype node =
    Str string
  | Paragraph string
  | ErrorParagraph string
  | ImageAttachment node string string
  | FileAttachment node string
  | Div "rendered list"

record ChatMessage =
  role :: role
  parts :: "string list"
  renderedContent :: node

text \<open>The \<^verbatim>\<open>type\<close> and the \<^verbatim>\<open>name\<close> of a \<^verbatim>\<open>File\<close>.\<close>

record File =
  file_type :: string
  file_name :: string

text \<open>
  The state of the component \<^verbatim>\<open>App\<close> that the handlers below read or write. The
  counter \<^verbatim>\<open>clearMaskSignal\<close> is a JavaScript number that starts at 0 and is changed
  by \<^verbatim>\<open>s => s + 1\<close> only: in double precision the sum is exact below \<open>2 ^ 53\<close>, and
  \<open>2 ^ 53 + 1\<close> rounds back to \<open>2 ^ 53\<close>.
\<close>

record App =
  history :: EditHistory
  isLoading :: bool
  loadingText :: string
  error :: string
  prompt :: string
  isDraftMode :: bool
  maskDataUrl :: "string option"
  clearMaskSignal :: nat
  chatMessages :: "ChatMessage list"
  isThinking :: bool
  chatSessionRef :: "Chat option"
  multiViewImages :: "ImageFile list"
  codeToRun :: "string option"

definition initial :: App where
  "initial =
     \<lparr>history = empty_history, isLoading = False, loadingText = ''Applying AI magic...'',
      error = [], prompt = [], isDraftMode = True, maskDataUrl = None, clearMaskSignal = 0,
      chatMessages = [], isThinking = False, chatSessionRef = None, multiViewImages = [],
      codeToRun = None\<rparr>"

text \<open>
  \<^verbatim>\<open>s => s + 1\<close> on a double with an integer value \<open>s\<close>, rounded to nearest, ties to
  even: exact below \<open>2 ^ 53\<close>; from there to \<open>2 ^ 54\<close> the doubles are the even numbers
  and \<open>s + 1\<close> lies halfway between \<open>s\<close> and \<open>s + 2\<close>, of which the one with the even
  significand is taken; from \<open>2 ^ 54\<close> on \<open>s + 1\<close> rounds back to \<open>s\<close>.
\<close>

definition js_succ :: "nat \<Rightarrow> nat" where
  "js_succ s =
     (if s < 2 ^ 53 then s + 1
      else if s < 2 ^ 54 \<and> odd (s div 2) then s + 2
      else s)"

definition handleShowError :: "string \<Rightarrow> App \<Rightarrow> App" where
  "handleShowError message st = st\<lparr>error := message\<rparr>"

subsection \<open>Image edits\<close>

text \<open>The arguments of one call of \<^verbatim>\<open>geminiService.editImage\<close>.\<close>

record editImage_call =
  edit_prompt :: string
  edit_image :: ImageFile
  edit_mask :: "string option"
  edit_draft :: bool

text \<open>
  \<^verbatim>\<open>handleGenerate\<close> up to its \<^verbatim>\<open>await\<close>: the state it leaves and the call of the
  collaborator it is waiting for, if it made one.
\<close>

definition handleGenerate_begin :: "App \<Rightarrow> App \<times> editImage_call option" where
  "handleGenerate_begin st =
     (if trim (prompt st) = [] then (st, None)
      else case current (history st) of
             None \<Rightarrow>
               (handleShowError ''Please upload an image first to apply an edit.'' st, None)
           | Some currentImage \<Rightarrow>
               (st\<lparr>isLoading := True,
                   loadingText := ''Applying '' @ [CHR 0x22] @ prompt st @ [CHR 0x22] @ ''...''\<rparr>,
                Some \<lparr>edit_prompt = prompt st, edit_image = currentImage,
                      edit_mask = maskDataUrl st, edit_draft = isDraftMode st\<rparr>))"

text \<open>
  \<^verbatim>\<open>handleGenerate\<close> from the point where the promise of \<^verbatim>\<open>editImage\<close> settles, on the
  state of that moment: the rest of the \<^verbatim>\<open>try\<close> block or the \<^verbatim>\<open>catch\<close> block, then
  \<^verbatim>\<open>finally\<close>. When the rejection is \<^verbatim>\<open>null\<close> or \<^verbatim>\<open>undefined\<close>, the argument of
  \<^verbatim>\<open>handleShowError\<close> throws before the call, so only \<^verbatim>\<open>finally\<close> changes the state.
\<close>

definition handleGenerate_settle :: "js_error + ImageFile \<Rightarrow> App \<Rightarrow> App \<times> outcome" where
  "handleGenerate_settle result st =
     (case result of
        Inr editedImage \<Rightarrow>
          (st\<lparr>history := push editedImage (history st), prompt := [],
               clearMaskSignal := js_succ (clearMaskSignal st), isLoading := False\<rparr>,
           Fulfilled)
      | Inl Nullish \<Rightarrow> (st\<lparr>isLoading := False\<rparr>, Rejected_TypeError)
      | Inl (Thrown message) \<Rightarrow>
          ((handleShowError
              (message_or message ''An unknown error occurred during editing.'') st)
             \<lparr>isLoading := False\<rparr>,
           Fulfilled))"

text \<open>
  \<^verbatim>\<open>handleGenerate\<close> run without another event in between, against a collaborator
  given as a function: the state it leaves, the calls made to the collaborator and the way
  its promise settles.
\<close>

definition handleGenerate ::
  "(editImage_call \<Rightarrow> js_error + ImageFile) \<Rightarrow> App
     \<Rightarrow> App \<times> editImage_call list \<times> outcome" where
  "handleGenerate editImage st =
     (case handleGenerate_begin st of
        (st', None) \<Rightarrow> (st', [], Fulfilled)
      | (st', Some call) \<Rightarrow>
          (case handleGenerate_settle (editImage call) st' of
             (st'', out) \<Rightarrow> (st'', [call], out)))"

subsection \<open>Multiple views\<close>

record generateMultiView_call =
  view_prompt :: string
  view_image :: ImageFile

definition handleGenerateMultiView_begin :: "App \<Rightarrow> App \<times> generateMultiView_call option" where
  "handleGenerateMultiView_begin st =
     (case current (history st) of
        None \<Rightarrow> (st, None)
      | Some currentImage \<Rightarrow>
          (st\<lparr>isLoading := True, loadingText := ''Generating professional views...''\<rparr>,
           Some \<lparr>view_prompt = prompt st, view_image = currentImage\<rparr>))"

definition handleGenerateMultiView_settle ::
  "js_error + ImageFile list \<Rightarrow> App \<Rightarrow> App \<times> outcome" where
  "handleGenerateMultiView_settle result st =
     (case result of
        Inr images \<Rightarrow> (st\<lparr>multiViewImages := images, isLoading := False\<rparr>, Fulfilled)
      | Inl Nullish \<Rightarrow> (st\<lparr>isLoading := False\<rparr>, Rejected_TypeError)
      | Inl (Thrown message) \<Rightarrow>
          ((handleShowError (message_or message ''Failed to generate multi-view images.'') st)
             \<lparr>isLoading := False\<rparr>,
           Fulfilled))"

definition handleGenerateMultiView ::
  "(generateMultiView_call \<Rightarrow> js_error + ImageFile list) \<Rightarrow> App
     \<Rightarrow> App \<times> generateMultiView_call list \<times> outcome" where
  "handleGenerateMultiView generateMultiView st =
     (case handleGenerateMultiView_begin st of
        (st', None) \<Rightarrow> (st', [], Fulfilled)
      | (st', Some call) \<Rightarrow>
          (case handleGenerateMultiView_settle (generateMultiView call) st' of
             (st'', out) \<Rightarrow> (st'', [call], out)))"

text \<open>
  The captions of \<^verbatim>\<open>MultiViewModal\<close>, which shows the images in the order of the
  list: the caption of the image at \<open>index\<close>, with the decimal numeral of
  \<^verbatim>\<open>`View ${index + 1}`\<close> from the fifth image on.
\<close>

fun decimal :: "nat \<Rightarrow> string" where
  "decimal n =
     (if n < 10 then [''0123456789'' ! n]
      else decimal (n div 10) @ [''0123456789'' ! (n mod 10)])"

declare decimal.simps [simp del]

definition view_caption :: "nat \<Rightarrow> string" where
  "view_caption index =
     (if index < 4 then [''Front View'', ''Side View'', ''Rear View'', ''Overhead View''] ! index
      else ''View '' @ decimal (index + 1))"

definition MultiViewModal :: "ImageFile list \<Rightarrow> (ImageFile \<times> string) list" where
  "MultiViewModal images = map (\<lambda>(img, index). (img, view_caption index)) (zip images [0 ..< length images])"

subsection \<open>Chat\<close>

definition welcomeMessage :: string where
  "welcomeMessage =
     ''Hello! I'' @ [CHR 0x27] @ ''m your AI creative partner. How can I help you today? You can attach images, documents, or code for analysis.''"

text \<open>\<^verbatim>\<open>startNewChat\<close>, with the session that \<^verbatim>\<open>createChatSession\<close> returned.\<close>

definition startNewChat :: "Chat \<Rightarrow> App \<Rightarrow> App" where
  "startNewChat newSession st =
     st\<lparr>chatSessionRef := Some newSession,
        chatMessages :=
          [\<lparr>role = Model, parts = [welcomeMessage], renderedContent = Paragraph welcomeMessage\<rparr>]\<rparr>"

text \<open>
  \<^verbatim>\<open>handleChatSubmit\<close> up to the \<^verbatim>\<open>await\<close> of \<^verbatim>\<open>sendChatMessage\<close>: the state and the
  arguments of the call, if it was made. \<open>createObjectURL\<close> stands for
  \<^verbatim>\<open>URL.createObjectURL\<close>.
\<close>

definition handleChatSubmit_begin ::
  "(File \<Rightarrow> string) \<Rightarrow> string \<Rightarrow> File option \<Rightarrow> App
     \<Rightarrow> App \<times> (Chat \<times> string \<times> File option) option" where
  "handleChatSubmit_begin createObjectURL message attachmentFile st =
     (case chatSessionRef st of
        None \<Rightarrow> (st, None)
      | Some session \<Rightarrow>
          (let userRenderedContent =
                 (case attachmentFile of
                    None \<Rightarrow> Paragraph message
                  | Some f \<Rightarrow>
                      if startsWith (file_type f) ''image/''
                      then ImageAttachment (Paragraph message) (createObjectURL f) (file_name f)
                      else FileAttachment (Paragraph message) (file_name f))
           in (st\<lparr>chatMessages :=
                     chatMessages st
                       @ [\<lparr>role = User, parts = [], renderedContent = userRenderedContent\<rparr>],
                   isThinking := True\<rparr>,
               Some (session, message, attachmentFile))))"

text \<open>
  The stream has been obtained: the local \<^verbatim>\<open>responseText\<close> starts empty and the
  placeholder entry of the model is appended.
\<close>

definition handleChatSubmit_stream :: "App \<Rightarrow> string \<times> App" where
  "handleChatSubmit_stream st =
     ([], st\<lparr>chatMessages :=
               chatMessages st @ [\<lparr>role = Model, parts = [], renderedContent = Str []\<rparr>]\<rparr>)"

text \<open>
  The update of \<^verbatim>\<open>setChatMessages\<close> in the loop: the last entry of the log gets the
  new rendered content. On an empty log the assignment to index \<open>-1\<close> adds no element.
\<close>

definition set_last_rendered :: "rendered list \<Rightarrow> ChatMessage list \<Rightarrow> ChatMessage list" where
  "set_last_rendered rendered prev =
     (if prev = [] then []
      else prev[length prev - 1 :=
                  (prev ! (length prev - 1))\<lparr>renderedContent := Div rendered\<rparr>])"

text \<open>
  One round of the loop \<^verbatim>\<open>for await (const chunk of stream)\<close>, on the state of the
  moment the chunk arrives: the new value of \<^verbatim>\<open>responseText\<close> and the new state.
\<close>

definition handleChatSubmit_chunk :: "string \<Rightarrow> string \<Rightarrow> App \<Rightarrow> string \<times> App" where
  "handleChatSubmit_chunk chunk_text responseText st =
     (let responseText' = responseText @ chunk_text;
          rendered = segment responseText'
      in (responseText',
          st\<lparr>chatMessages := set_last_rendered rendered (chatMessages st)\<rparr>))"

text \<open>The stream ends: \<^verbatim>\<open>finally\<close>.\<close>

definition handleChatSubmit_end :: "App \<Rightarrow> App" where
  "handleChatSubmit_end st = st\<lparr>isThinking := False\<rparr>"

text \<open>
  The call or the stream fails: \<^verbatim>\<open>catch\<close>, then \<^verbatim>\<open>finally\<close>. When the value caught is
  \<^verbatim>\<open>null\<close> or \<^verbatim>\<open>undefined\<close>, the first statement of the \<^verbatim>\<open>catch\<close> block throws and
  neither the message nor the entry is written.
\<close>

definition handleChatSubmit_catch :: "js_error \<Rightarrow> App \<Rightarrow> App \<times> outcome" where
  "handleChatSubmit_catch err st =
     (case err of
        Nullish \<Rightarrow> (st\<lparr>isThinking := False\<rparr>, Rejected_TypeError)
      | Thrown message \<Rightarrow>
          (let st' = handleShowError (message_or message ''An error occurred in chat.'') st
           in (st'\<lparr>chatMessages :=
                     chatMessages st'
                       @ [\<lparr>role = Model, parts = [],
                           renderedContent = ErrorParagraph ''Sorry, I encountered an error.''\<rparr>],
                   isThinking := False\<rparr>,
               Fulfilled)))"

text \<open>The loop over the chunks of a stream that no other event interrupts.\<close>

fun handleChatSubmit_chunks :: "string list \<Rightarrow> string \<Rightarrow> App \<Rightarrow> string \<times> App" where
  "handleChatSubmit_chunks [] responseText st = (responseText, st)"
| "handleChatSubmit_chunks (chunk_text # chunks) responseText st =
     (case handleChatSubmit_chunk chunk_text responseText st of
        (responseText', st') \<Rightarrow> handleChatSubmit_chunks chunks responseText' st')"


text \<open>The entries that \<^verbatim>\<open>startNewChat\<close> and the \<^verbatim>\<open>catch\<close> block write into the log.\<close>

definition welcome_entry :: ChatMessage where
  "welcome_entry = \<lparr>role = Model, parts = [welcomeMessage], renderedContent = Paragraph welcomeMessage\<rparr>"

definition error_entry :: ChatMessage where
  "error_entry =
     \<lparr>role = Model, parts = [], renderedContent = ErrorParagraph ''Sorry, I encountered an error.''\<rparr>"


section \<open>Example values\<close>

definition example_text :: string where
  "example_text =
     ''Hello'' @ [newline] @ fence @ ''html'' @ [newline] @ ''<b>hi</b>'' @ [newline] @ fence
       @ [newline] @ ''Bye''"

definition example_span :: string where
  "example_span = fence @ ''html'' @ newline # (''<b>hi</b>'' @ [newline]) @ fence"

definition open_fence_text :: string where
  "open_fence_text = ''Hello'' @ [newline] @ fence @ ''js'' @ [newline] @ ''code''"

definition img_a :: ImageFile where
  "img_a = \<lparr>mimeType = ''image/png'', data = ''AAAA''\<rparr>"

definition img_b :: ImageFile where
  "img_b = \<lparr>mimeType = ''image/png'', data = ''BBBB''\<rparr>"

definition st_loaded :: App where
  "st_loaded = initial\<lparr>history := reset img_a empty_history, prompt := ''brighter''\<rparr>"

definition four_views :: "ImageFile list" where
  "four_views =
     [\<lparr>mimeType = ''image/png'', data = ''FRONT''\<rparr>, \<lparr>mimeType = ''image/png'', data = ''SIDE''\<rparr>,
      \<lparr>mimeType = ''image/png'', data = ''REAR''\<rparr>, \<lparr>mimeType = ''image/png'', data = ''TOP''\<rparr>]"

text \<open>A run: a session, a submission, its stream, a chunk, a new session, a late chunk.\<close>

definition run_before_late_chunk :: "string \<times> App" where
  "run_before_late_chunk =
     (let st1 = startNewChat 1 initial;
          st2 = fst (handleChatSubmit_begin (\<lambda>f. []) ''hi'' None st1);
          (responseText3, st3) = handleChatSubmit_stream st2;
          (responseText4, st4) = handleChatSubmit_chunk ''a'' responseText3 st3
      in (responseText4, startNewChat 2 st4))"

text \<open>A run: a session, a submission, its stream and one chunk; then the stream fails.\<close>

definition run_before_failure :: App where
  "run_before_failure =
     (let st1 = startNewChat 1 initial;
          st2 = fst (handleChatSubmit_begin (\<lambda>f. []) ''hi'' None st1);
          (responseText3, st3) = handleChatSubmit_stream st2;
          (responseText4, st4) = handleChatSubmit_chunk ''a'' responseText3 st3
      in st4)"

section \<open>Properties of the segmentation\<close>

lemma match_fence_Nil: "match_fence [] = None"
  by (simp add: match_fence_def startsWith_def fence_def)

lemma split_fences_Match:
  "match_fence s = Some (f, r) \<Longrightarrow> split_fences s = [] # f # split_fences r"
  by (simp add: split_fences.simps [of s])

lemma split_fences_Nil: "split_fences [] = [[]]"
  by (simp add: split_fences.simps [of "[]"] match_fence_Nil)

lemma split_fences_Cons:
  "match_fence (c # cs) = None \<Longrightarrow> split_fences (c # cs) = push_char c (split_fences cs)"
  by (simp add: split_fences.simps [of "c # cs"])

lemma split_fences_cases [case_names Match Nil Cons]:
  assumes "\<And>s f r. match_fence s = Some (f, r) \<Longrightarrow> P r \<Longrightarrow> P s"
    and "P []"
    and "\<And>c cs. match_fence (c # cs) = None \<Longrightarrow> P cs \<Longrightarrow> P (c # cs)"
  shows "P s"
proof (induction s rule: split_fences.induct)
  case (1 s)
  show ?case
  proof (cases "match_fence s")
    case None
    show ?thesis
    proof (cases s)
      case Nil
      with assms(2) show ?thesis by simp
    next
      case (Cons c cs)
      from "1.IH"(1) [OF None Cons] have "P cs" .
      with assms(3) None Cons show ?thesis by simp
    qed
  next
    case (Some a)
    obtain f r where a: "a = (f, r)" by (cases a)
    from "1.IH"(2) [OF Some a [symmetric]] have "P r" .
    with assms(1) Some a show ?thesis by simp
  qed
qed

lemma split_fences_nonempty: "split_fences s \<noteq> []"
proof (induction s rule: split_fences_cases)
  case (Match s f r)
  then show ?case by (simp add: split_fences_Match)
next
  case Nil
  show ?case by (simp add: split_fences_Nil)
next
  case (Cons c cs)
  then show ?case by (cases "split_fences cs") (simp_all add: split_fences_Cons)
qed

lemma concat_push_char: "ps \<noteq> [] \<Longrightarrow> concat (push_char c ps) = c # concat ps"
  by (cases ps) simp_all

lemma concat_split_fences: "concat (split_fences s) = s"
proof (induction s rule: split_fences_cases)
  case (Match s f r)
  then show ?case using match_fence_shape [of s f r] by (simp add: split_fences_Match)
next
  case Nil
  show ?case by (simp add: split_fences_Nil)
next
  case (Cons c cs)
  then show ?case by (simp add: split_fences_Cons concat_push_char split_fences_nonempty)
qed

lemma lazy_until_fence_length: "lazy_until_fence s = Some (m, r) \<Longrightarrow> 3 \<le> length s"
  by (drule lazy_until_fence_shape) (simp add: length_fence)

lemma startsWith_append:
  "length p \<le> length s \<Longrightarrow> startsWith (s @ t) p = startsWith s p"
  by (simp add: startsWith_def prefix_def append_eq_append_conv2)
   (metis append_eq_append_conv_if append_take_drop_id append.assoc)

lemma lazy_until_fence_append:
  "lazy_until_fence xs = Some (m, r) \<Longrightarrow> lazy_until_fence (xs @ ys) = Some (m, r @ ys)"
proof (induction xs arbitrary: m)
  case Nil
  then show ?case by simp
next
  case (Cons c cs)
  from lazy_until_fence_length [OF Cons.prems] have len: "length fence \<le> length (c # cs)"
    by (simp add: length_fence)
  show ?case
  proof (cases "startsWith (c # cs) fence")
    case True
    then have "startsWith ((c # cs) @ ys) fence" using startsWith_append [OF len] by simp
    from lazy_until_fence_hit [OF this] lazy_until_fence_hit [OF True] Cons.prems len
    show ?thesis by (simp add: length_fence)
  next
    case False
    then have nsw: "\<not> startsWith (c # cs @ ys) fence" using startsWith_append [OF len, of ys] by simp
    from False Cons.prems obtain m' where m': "lazy_until_fence cs = Some (m', r)" "m = c # m'"
      by auto
    from Cons.IH [OF m'(1)] nsw m'(2) show ?thesis by simp
  qed
qed

lemma match_fence_append:
  assumes "match_fence t = Some (f, r)"
  shows "match_fence (t @ s) = Some (f, r @ s)"
proof -
  from assms obtain m where sw: "startsWith t fence"
    and l: "lazy_until_fence (drop 3 t) = Some (m, r)" and f: "f = fence @ m @ fence"
    by (auto simp: match_fence_Some)
  from startsWith_fence_drop [OF sw] have len: "3 \<le> length t"
    by (metis length_append length_fence le_add1)
  then have "drop 3 (t @ s) = drop 3 t @ s" by simp
  moreover from sw len have "startsWith (t @ s) fence"
    by (simp add: startsWith_append length_fence)
  ultimately show ?thesis using lazy_until_fence_append [OF l, of s] f
    by (simp add: match_fence_Some)
qed

lemma lazy_until_fence_None_tl:
  "lazy_until_fence (c # cs) = None \<Longrightarrow> lazy_until_fence cs = None"
  by (simp split: if_splits)

lemma lazy_until_fence_None_drop:
  "lazy_until_fence s = None \<Longrightarrow> lazy_until_fence (drop n s) = None"
proof (induction n arbitrary: s)
  case 0
  then show ?case by simp
next
  case (Suc n)
  then show ?case by (cases s) (auto dest: lazy_until_fence_None_tl simp del: lazy_until_fence.simps)
qed

lemma match_fence_None_of_lazy:
  "lazy_until_fence (drop 3 s) = None \<Longrightarrow> match_fence s = None"
  by (simp add: match_fence_def)

text \<open>A text without a second fence after its first three characters is not split.\<close>

lemma split_fences_single:
  "lazy_until_fence (drop 3 s) = None \<Longrightarrow> split_fences s = [s]"
proof (induction s)
  case Nil
  show ?case by (simp add: split_fences_Nil)
next
  case (Cons c cs)
  from Cons.prems have "lazy_until_fence (drop 2 cs) = None" by simp
  from lazy_until_fence_None_drop [OF this, of 1]
  have "lazy_until_fence (drop 3 cs) = None" by (simp add: numeral_3_eq_3)
  with Cons.IH have "split_fences cs = [cs]" by simp
  with match_fence_None_of_lazy [OF Cons.prems] show ?case
    by (simp add: split_fences_Cons)
qed

lemma match_fence_late:
  assumes "match_fence t = None" and "match_fence (t @ s) \<noteq> None"
  shows "lazy_until_fence (drop 3 t) = None"
proof (cases "startsWith t fence")
  case True
  with assms(1) show ?thesis by (simp add: match_fence_def)
next
  case False
  from assms(2) have "startsWith (t @ s) fence" by (auto simp: match_fence_def split: if_splits)
  with False have "length t < 3"
    using startsWith_append [of fence t s] by (cases "3 \<le> length t") (auto simp: length_fence)
  then show ?thesis by simp
qed

lemma butlast_push_char:
  "2 \<le> length ps \<Longrightarrow> butlast (push_char c ps) = push_char c (butlast ps)"
  by (cases ps) (auto split: if_splits)

lemma last_push_char:
  "2 \<le> length ps \<Longrightarrow> last (push_char c ps) = last ps"
  by (cases ps) auto

lemma push_char_append:
  "ps \<noteq> [] \<Longrightarrow> push_char c (ps @ qs) = push_char c ps @ qs"
  by (cases ps) auto

text \<open>Extending the text re-splits its last segment only.\<close>

lemma split_fences_append:
  "split_fences (t @ s) = butlast (split_fences t) @ split_fences (last (split_fences t) @ s)"
proof (induction t rule: split_fences_cases)
  case (Match t f r)
  from match_fence_append [OF Match(1), of s] Match show ?case
    by (simp add: split_fences_Match split_fences_nonempty)
next
  case Nil
  show ?case by (simp add: split_fences_Nil)
next
  case (Cons c cs)
  show ?case
  proof (cases "match_fence ((c # cs) @ s)")
    case Some
    with Cons(1) have "lazy_until_fence (drop 3 (c # cs)) = None"
      by (intro match_fence_late [of _ s]) simp_all
    then have "split_fences (c # cs) = [c # cs]" by (rule split_fences_single)
    then show ?thesis by simp
  next
    case None
    then have eq: "split_fences (c # cs @ s) = push_char c (split_fences (cs @ s))"
      by (simp add: split_fences_Cons)
    show ?thesis
    proof (cases "2 \<le> length (split_fences cs)")
      case True
      then have "butlast (split_fences cs) \<noteq> []" by (cases "split_fences cs") auto
      with True Cons show ?thesis
        by (simp add: eq split_fences_Cons butlast_push_char last_push_char push_char_append)
    next
      case False
      with split_fences_nonempty [of cs] obtain p where p: "split_fences cs = [p]"
        by (cases "split_fences cs") (auto simp: not_le Suc_le_eq)
      with concat_split_fences [of cs] have "p = cs" by simp
      with p Cons(1) None show ?thesis by (simp add: split_fences_Cons)
    qed
  qed
qed

lemma segment_append:
  "segment (t @ s) = butlast (segment t) @ segment (last (split_fences t) @ s)"
  by (simp add: segment_def split_fences_append [of t s] map_butlast)



lemma lazy_until_fence_self:
  "lazy_until_fence s = Some (m, r) \<Longrightarrow> lazy_until_fence (m @ fence) = Some (m, [])"
proof (induction s arbitrary: m)
  case Nil
  then show ?case by simp
next
  case (Cons c cs)
  show ?case
  proof (cases "startsWith (c # cs) fence")
    case True
    with Cons.prems have "m = []" by simp
    moreover have "startsWith fence fence" by (simp add: startsWith_def)
    ultimately show ?thesis using lazy_until_fence_hit [of fence] by (simp add: length_fence)
  next
    case False
    with Cons.prems obtain m' where m': "lazy_until_fence cs = Some (m', r)" "m = c # m'"
      by auto
    from lazy_until_fence_shape [OF m'(1)] have cs: "c # cs = (c # m' @ fence) @ r" by simp
    have "length fence \<le> length (c # m' @ fence)" by simp
    from startsWith_append [OF this, of r] False cs
    have "\<not> startsWith (c # m' @ fence) fence" by simp
    with Cons.IH [OF m'(1)] m'(2) show ?thesis by simp
  qed
qed

lemma match_fence_self:
  "match_fence s = Some (f, r) \<Longrightarrow> match_fence f = Some (f, [])"
proof -
  assume "match_fence s = Some (f, r)"
  then obtain m where l: "lazy_until_fence (drop 3 s) = Some (m, r)" and f: "f = fence @ m @ fence"
    by (auto simp: match_fence_Some)
  have "startsWith f fence" by (simp add: f startsWith_def)
  moreover have "drop 3 f = m @ fence" by (simp add: f length_fence)
  ultimately show ?thesis using lazy_until_fence_self [OF l] f
    by (simp add: match_fence_Some)
qed

lemma fence_free_Nil: "fence_free []"
  by (simp add: fence_free_def match_fence_Nil)

lemma fence_free_Cons:
  "match_fence (c # cs) = None \<Longrightarrow> fence_free cs \<Longrightarrow> fence_free (c # cs)"
  unfolding fence_free_def
proof
  fix n
  assume a: "match_fence (c # cs) = None" "\<forall>n. match_fence (drop n cs) = None"
  show "match_fence (drop n (c # cs)) = None"
    using a by (cases n) simp_all
qed

lemma hd_split_fences_fence_free: "fence_free (hd (split_fences s))"
proof (induction s rule: split_fences_cases)
  case (Match s f r)
  then show ?case by (simp add: split_fences_Match fence_free_Nil)
next
  case Nil
  show ?case by (simp add: split_fences_Nil fence_free_Nil)
next
  case (Cons c cs)
  obtain q qs where q: "split_fences cs = q # qs"
    using split_fences_nonempty [of cs] by (cases "split_fences cs") auto
  with concat_split_fences [of cs] have cs: "cs = q @ concat qs" by simp
  have "match_fence (c # q) = None"
  proof (rule ccontr)
    assume "match_fence (c # q) \<noteq> None"
    then obtain f r where "match_fence (c # q) = Some (f, r)" by auto
    from match_fence_append [OF this, of "concat qs"] cs Cons(1) show False by simp
  qed
  with Cons q show ?case by (simp add: split_fences_Cons fence_free_Cons)
qed

lemma split_fences_parts:
  "p \<in> set (split_fences s) \<Longrightarrow> match_fence p = Some (p, []) \<or> fence_free p"
proof (induction s rule: split_fences_cases)
  case (Match s f r)
  from Match(3) have "p = [] \<or> p = f \<or> p \<in> set (split_fences r)"
    by (simp add: split_fences_Match [OF Match(1)])
  with Match(2) match_fence_self [OF Match(1)] show ?case by (auto simp: fence_free_Nil)
next
  case Nil
  then show ?case by (simp add: split_fences_Nil fence_free_Nil)
next
  case (Cons c cs)
  obtain q qs where q: "split_fences cs = q # qs"
    using split_fences_nonempty [of cs] by (cases "split_fences cs") auto
  with Cons(1) have sp: "split_fences (c # cs) = (c # q) # qs" by (simp add: split_fences_Cons)
  with Cons(3) have "p = c # q \<or> p \<in> set qs" by simp
  then show ?case
  proof
    assume "p = c # q"
    with sp hd_split_fences_fence_free [of "c # cs"] show ?thesis by simp
  next
    assume "p \<in> set qs"
    with q Cons(2) show ?thesis by simp
  qed
qed

lemma last_split_fences_fence_free: "fence_free (last (split_fences s))"
proof (induction s rule: split_fences_cases)
  case (Match s f r)
  then show ?case by (simp add: split_fences_Match split_fences_nonempty)
next
  case Nil
  show ?case by (simp add: split_fences_Nil fence_free_Nil)
next
  case (Cons c cs)
  obtain q qs where q: "split_fences cs = q # qs"
    using split_fences_nonempty [of cs] by (cases "split_fences cs") auto
  with Cons(1) have sp: "split_fences (c # cs) = (c # q) # qs" by (simp add: split_fences_Cons)
  show ?case
  proof (cases qs)
    case Nil
    with sp hd_split_fences_fence_free [of "c # cs"] show ?thesis by simp
  next
    case (Cons a list)
    with sp q \<open>fence_free (last (split_fences cs))\<close> show ?thesis by simp
  qed
qed

lemma match_code_at_match_fence:
  assumes "match_code_at s = Some g"
  shows "match_fence s \<noteq> None"
proof -
  from assms have sw: "startsWith s fence"
    by (auto simp: match_code_at_def split: if_splits)
  let ?k = "length (takeWhile is_word_char (drop 3 s))"
  have dw: "dropWhile is_word_char (drop 3 s) = drop ?k (drop 3 s)"
    by (rule dropWhile_eq_drop)
  from assms sw obtain d r'' where r: "dropWhile is_word_char (drop 3 s) = newline # d # r''"
    and l: "lazy_until_fence r'' \<noteq> None"
    by (auto simp: match_code_at_def Let_def split: list.splits if_splits)
  from r dw have "r'' = drop 2 (drop ?k (drop 3 s))" by simp
  then have r'': "r'' = drop (2 + ?k) (drop 3 s)" by simp
  have "lazy_until_fence (drop 3 s) \<noteq> None"
  proof
    assume "lazy_until_fence (drop 3 s) = None"
    from lazy_until_fence_None_drop [OF this, of "2 + ?k"] l r'' show False by simp
  qed
  with sw show ?thesis by (auto simp: match_fence_def)
qed

lemma match_code_fence_free: "fence_free s \<Longrightarrow> match_code s = None"
proof (induction s)
  case Nil
  show ?case by (simp add: match_code_at_def startsWith_def fence_def)
next
  case (Cons c cs)
  from Cons.prems have "match_fence (drop 0 (c # cs)) = None"
    unfolding fence_free_def by blast
  then have "match_code_at (c # cs) = None"
    using match_code_at_match_fence [of "c # cs"] by (cases "match_code_at (c # cs)") auto
  moreover have "fence_free cs"
    unfolding fence_free_def
  proof
    fix n
    from Cons.prems have "match_fence (drop (Suc n) (c # cs)) = None"
      unfolding fence_free_def by blast
    then show "match_fence (drop n cs) = None" by simp
  qed
  ultimately show ?case using Cons.IH by simp
qed

lemma render_part_fence_free:
  "fence_free s \<Longrightarrow>
     render_part s = (if startsWith s fence then Pre s else Fragment (split_lines s))"
  by (simp add: render_part_def match_code_fence_free)




lemma lazy_until_fence_contains: "lazy_until_fence (x @ fence @ y) \<noteq> None"
proof (induction x)
  case Nil
  have "startsWith (fence @ y) fence" by (simp add: startsWith_def)
  from lazy_until_fence_hit [OF this] show ?case by simp
next
  case (Cons c x)
  show ?case
  proof (cases "startsWith (c # x @ fence @ y) fence")
    case True
    from lazy_until_fence_hit [OF this] show ?thesis by simp
  next
    case False
    with Cons show ?thesis by auto
  qed
qed

lemma lazy_until_fence_strip:
  "lazy_until_fence (u @ v) = Some (u @ m, r) \<Longrightarrow> lazy_until_fence v = Some (m, r)"
proof (induction u)
  case Nil
  then show ?case by simp
next
  case (Cons c u)
  show ?case
  proof (cases "startsWith (c # u @ v) fence")
    case True
    from lazy_until_fence_hit [OF this] Cons.prems show ?thesis by simp
  next
    case False
    with Cons.prems have "lazy_until_fence (u @ v) = Some (u @ m, r)" by auto
    then show ?thesis by (rule Cons.IH)
  qed
qed

lemma not_word_newline: "\<not> is_word_char newline"
  by (simp add: is_word_char_def newline_def)

lemma match_code_at_fenced:
  assumes cap: "match_fence p = Some (p, [])"
    and p: "p = fence @ lang @ newline # body @ fence"
    and lang: "\<forall>c\<in>set lang. is_word_char c"
    and body: "body \<noteq> []"
  shows "match_code_at p = Some (lang, body)"
proof -
  from body obtain d body' where b: "body = d # body'" by (cases body) auto
  have sw: "startsWith p fence" by (simp add: p startsWith_def)
  have d3: "drop 3 p = lang @ newline # body @ fence" by (simp add: p length_fence)
  from cap obtain m where l: "lazy_until_fence (drop 3 p) = Some (m, [])"
    and pm: "p = fence @ m @ fence"
    by (auto simp: match_fence_Some)
  from pm p have m: "m = lang @ newline # body" by simp
  have "lazy_until_fence ((lang @ [newline, d]) @ body' @ fence) = Some ((lang @ [newline, d]) @ body', [])"
    using l d3 m b by simp
  from lazy_until_fence_strip [OF this]
  have l': "lazy_until_fence (body' @ fence) = Some (body', [])" .
  have tw: "takeWhile is_word_char (drop 3 p) = lang"
    using lang not_word_newline by (simp add: d3 takeWhile_tail)
  have dw: "dropWhile is_word_char (drop 3 p) = newline # body @ fence"
    using lang not_word_newline by (simp add: d3 dropWhile_append3)
  show ?thesis
    unfolding match_code_at_def using sw by (simp add: tw dw b l' del: lazy_until_fence.simps)
qed

lemma match_code_at_language:
  "match_code_at s = Some (lang, body) \<Longrightarrow> list_all is_word_char lang"
  by (auto simp: match_code_at_def Let_def list_all_iff split: if_splits list.splits
      dest: set_takeWhileD)

lemma match_code_language:
  "match_code s = Some (lang, body) \<Longrightarrow> list_all is_word_char lang"
  by (induction s) (auto split: option.splits dest: match_code_at_language)

text \<open>The language of a \<open>CodeBlock\<close> consists of word characters.\<close>

lemma render_part_language:
  "render_part p = CodeBlock lang body \<Longrightarrow> list_all is_word_char lang"
  by (auto simp: render_part_def split: if_splits option.splits dest: match_code_language)

lemma match_code_head: "match_code_at s = Some g \<Longrightarrow> match_code s = Some g"
  by (cases s) simp_all

lemma render_part_fenced:
  assumes "match_fence p = Some (p, [])"
    and "p = fence @ lang @ newline # body @ fence"
    and "\<forall>c\<in>set lang. is_word_char c"
    and "body \<noteq> []"
  shows "render_part p = CodeBlock lang body"
proof -
  have "startsWith p fence" by (simp add: assms(2) startsWith_def)
  with match_code_head [OF match_code_at_fenced [OF assms]] show ?thesis
    by (simp add: render_part_def)
qed

lemma fenced_not_fence_free:
  "\<not> fence_free (fence @ x @ fence)"
proof
  assume "fence_free (fence @ x @ fence)"
  then have "match_fence (drop 0 (fence @ x @ fence)) = None"
    unfolding fence_free_def by blast
  moreover have "startsWith (fence @ x @ fence) fence" by (simp add: startsWith_def)
  ultimately have "lazy_until_fence (x @ fence @ []) = None"
    by (simp add: match_fence_def length_fence)
  with lazy_until_fence_contains [of x "[]"] show False by simp
qed

lemmas eval_segment =
  segment_def render_part_def split_fences.simps match_fence_def match_code_at_def
  startsWith_def fence_def newline_def is_word_char_def

text \<open>
  Claim C2: for every text \<open>t\<close> and every suffix \<open>s\<close>, the blocks of \<open>segment t\<close> other
  than the last one are the blocks of \<open>segment (t @ s)\<close> at the same positions.
\<close>

theorem segment_stable_under_extension:
  "prefix (butlast (segment t)) (segment (t @ s)) \<and>
   take (length (segment t) - 1) (segment (t @ s)) = butlast (segment t)"
  by (simp add: segment_append [of t s])

lemma split_fences_fence_free: "fence_free s \<Longrightarrow> split_fences s = [s]"
proof (induction s)
  case Nil
  show ?case by (simp add: split_fences_Nil)
next
  case (Cons c cs)
  from Cons.prems have m: "match_fence (drop 0 (c # cs)) = None"
    unfolding fence_free_def by blast
  have "fence_free cs"
    unfolding fence_free_def
  proof
    fix n
    from Cons.prems have "match_fence (drop (Suc n) (c # cs)) = None"
      unfolding fence_free_def by blast
    then show "match_fence (drop n cs) = None" by simp
  qed
  with Cons.IH m show ?case by (simp add: split_fences_Cons)
qed

lemma startsWith_fence_hd: "startsWith s fence \<Longrightarrow> s \<noteq> [] \<and> hd s = CHR 0x60"
  by (cases s) (auto simp: startsWith_def fence_def)

text \<open>
  A text shaped like an open fence: prose without a backtick, three backticks, and a body
  in which no three backticks follow.
\<close>

lemma open_fence_fence_free:
  assumes u: "CHR 0x60 \<notin> set u" and b: "lazy_until_fence b = None"
  shows "fence_free (u @ fence @ b)"
  unfolding fence_free_def
proof
  fix n
  show "match_fence (drop n (u @ fence @ b)) = None"
  proof (cases "n < length u")
    case True
    then have "drop n (u @ fence @ b) = (u ! n) # drop (Suc n) u @ fence @ b"
      by (simp add: Cons_nth_drop_Suc)
    moreover from True u have "u ! n \<noteq> CHR 0x60" by (metis nth_mem)
    ultimately have "\<not> startsWith (drop n (u @ fence @ b)) fence"
      using startsWith_fence_hd [of "drop n (u @ fence @ b)"] by auto
    then show ?thesis by (simp add: match_fence_def)
  next
    case False
    then have d: "drop n (u @ fence @ b) = drop (n - length u) (fence @ b)" by simp
    have "lazy_until_fence (drop 3 (drop (n - length u) (fence @ b))) = None"
    proof -
      have "drop 3 (drop (n - length u) (fence @ b)) = drop (n - length u) (drop 3 (fence @ b))"
        by (simp only: drop_drop add.commute)
      also have "\<dots> = drop (n - length u) b" by (simp add: length_fence)
      finally show ?thesis using lazy_until_fence_None_drop [OF b] by simp
    qed
    then show ?thesis unfolding d by (rule match_fence_None_of_lazy)
  qed
qed

lemma open_fence_trailing:
  assumes "last (split_fences a) = []" and "CHR 0x60 \<notin> set u" and "lazy_until_fence b = None"
  shows "last (split_fences (a @ u @ fence @ b)) = u @ fence @ b"
proof -
  from split_fences_fence_free [OF open_fence_fence_free [OF assms(2,3)]]
  have "split_fences (u @ fence @ b) = [u @ fence @ b]" .
  with split_fences_append [of a "u @ fence @ b"] assms(1) show ?thesis by simp
qed

lemma lazy_until_fence_first:
  "lazy_until_fence x = Some (m, r) \<Longrightarrow> \<forall>k<length m. \<not> startsWith (drop k x) fence"
proof (induction x arbitrary: m)
  case Nil
  then show ?case by simp
next
  case (Cons c cs)
  show ?case
  proof (cases "startsWith (c # cs) fence")
    case True
    from lazy_until_fence_hit [OF True] Cons.prems have "m = []" by simp
    then show ?thesis by simp
  next
    case False
    with Cons.prems obtain m' where m': "lazy_until_fence cs = Some (m', r)" "m = c # m'"
      by auto
    show ?thesis
    proof (intro allI impI)
      fix k
      assume k: "k < length m"
      show "\<not> startsWith (drop k (c # cs)) fence"
      proof (cases k)
        case 0
        with False show ?thesis by simp
      next
        case (Suc j)
        with k m'(2) have "j < length m'" by simp
        with Cons.IH [OF m'(1)] Suc show ?thesis by simp
      qed
    qed
  qed
qed

lemma lazy_until_fence_found:
  "\<forall>k<length m. \<not> startsWith (drop k (m @ fence @ r)) fence \<Longrightarrow>
     lazy_until_fence (m @ fence @ r) = Some (m, r)"
proof (induction m)
  case Nil
  have "startsWith (fence @ r) fence" by (simp add: startsWith_def)
  from lazy_until_fence_hit [OF this] show ?case by (simp add: length_fence)
next
  case (Cons c m)
  from Cons.prems have "\<not> startsWith (drop 0 ((c # m) @ fence @ r)) fence" by blast
  then have n: "\<not> startsWith (c # m @ fence @ r) fence" by simp
  have "\<forall>k<length m. \<not> startsWith (drop k (m @ fence @ r)) fence"
  proof (intro allI impI)
    fix k assume "k < length m"
    then have "Suc k < length (c # m)" by simp
    with Cons.prems have "\<not> startsWith (drop (Suc k) ((c # m) @ fence @ r)) fence" by blast
    then show "\<not> startsWith (drop k (m @ fence @ r)) fence" by simp
  qed
  from Cons.IH [OF this] n show ?case by simp
qed

text \<open>The lazy quantifier stops at the first triple of backticks.\<close>

lemma lazy_until_fence_iff:
  "lazy_until_fence x = Some (m, r) \<longleftrightarrow>
     x = m @ fence @ r \<and> (\<forall>k<length m. \<not> startsWith (drop k x) fence)"
  using lazy_until_fence_shape lazy_until_fence_first lazy_until_fence_found by blast

text \<open>The split pattern matches the shortest span from a triple to the next triple.\<close>

lemma match_fence_iff:
  "match_fence v = Some (f, r) \<longleftrightarrow>
     (\<exists>m. f = fence @ m @ fence \<and> v = f @ r \<and>
          (\<forall>k<length m. \<not> startsWith (drop k (m @ fence @ r)) fence))"
proof
  assume a: "match_fence v = Some (f, r)"
  then obtain m where sw: "startsWith v fence"
    and l: "lazy_until_fence (drop 3 v) = Some (m, r)" and f: "f = fence @ m @ fence"
    by (auto simp: match_fence_Some)
  from lazy_until_fence_first [OF l] lazy_until_fence_shape [OF l]
  have "\<forall>k<length m. \<not> startsWith (drop k (m @ fence @ r)) fence" by metis
  with f match_fence_shape [OF a] show "\<exists>m. f = fence @ m @ fence \<and> v = f @ r \<and>
          (\<forall>k<length m. \<not> startsWith (drop k (m @ fence @ r)) fence)" by blast
next
  assume "\<exists>m. f = fence @ m @ fence \<and> v = f @ r \<and>
          (\<forall>k<length m. \<not> startsWith (drop k (m @ fence @ r)) fence)"
  then obtain m where f: "f = fence @ m @ fence" and v: "v = f @ r"
    and k: "\<forall>k<length m. \<not> startsWith (drop k (m @ fence @ r)) fence" by blast
  from v f have sw: "startsWith v fence" by (simp add: startsWith_def)
  from v f have d: "drop 3 v = m @ fence @ r" by (simp add: length_fence)
  from lazy_until_fence_found [OF k] d f sw show "match_fence v = Some (f, r)"
    by (simp add: match_fence_Some)
qed

text \<open>
  The split takes the leftmost position at which a span begins: the text before it, the
  span, and the split of the text behind the span.
\<close>

lemma split_fences_leftmost:
  "\<forall>n<length u. match_fence (drop n (u @ v)) = None \<Longrightarrow> match_fence v = Some (f, r) \<Longrightarrow>
     split_fences (u @ v) = u # f # split_fences r"
proof (induction u)
  case Nil
  then show ?case by (simp add: split_fences_Match)
next
  case (Cons c u)
  from Cons.prems(1) have "match_fence (drop 0 ((c # u) @ v)) = None" by blast
  then have m: "match_fence (c # u @ v) = None" by simp
  have "\<forall>n<length u. match_fence (drop n (u @ v)) = None"
  proof (intro allI impI)
    fix n assume "n < length u"
    then have "Suc n < length (c # u)" by simp
    with Cons.prems(1) have "match_fence (drop (Suc n) ((c # u) @ v)) = None" by blast
    then show "match_fence (drop n (u @ v)) = None" by simp
  qed
  from Cons.IH [OF this Cons.prems(2)] m show ?case by (simp add: split_fences_Cons)
qed

text \<open>
  Claim C1, as the code has it. The blocks are the segments of the split, rendered one by
  one in the order of the text, and the segments concatenate to the text. The split is on
  the spans of the pattern \<^verbatim>\<open>```[\s\S]*?```\<close>, which asks for no language tag and no
  newline: a text in which no span begins is one segment; otherwise the text before the
  leftmost position at which a span begins is a segment, the span is the next one, and the
  text behind the span is split in the same way. A span runs from three backticks to the
  first three backticks behind them. Every segment that consists of three backticks, a
  language tag of word characters (possibly empty), a newline, a nonempty source and
  three backticks becomes a \<open>CodeBlock\<close> with that language and that source, for which
  \<open>isHtml\<close> holds iff the language in lower case is \<open>html\<close>.
\<close>

theorem segmentation_by_backtick_spans:
  "segment t = map render_part (split_fences t) \<and>
   concat (split_fences t) = t \<and>
   (fence_free t \<longrightarrow> split_fences t = [t]) \<and>
   (\<forall>u v f r. t = u @ v \<and> (\<forall>n<length u. match_fence (drop n t) = None) \<and>
        match_fence v = Some (f, r) \<longrightarrow>
      split_fences t = u # f # split_fences r) \<and>
   (\<forall>v f r. match_fence v = Some (f, r) \<longleftrightarrow>
      (\<exists>m. f = fence @ m @ fence \<and> v = f @ r \<and>
           (\<forall>k<length m. \<not> startsWith (drop k (m @ fence @ r)) fence))) \<and>
   (\<forall>p lang body. p \<in> set (split_fences t) \<and> p = fence @ lang @ newline # body @ fence \<and>
        list_all is_word_char lang \<and> body \<noteq> [] \<longrightarrow>
      render_part p = CodeBlock lang body \<and>
      isHtml (render_part p) = (toLowerCase lang = ''html''))"
proof -
  have 1: "segment t = map render_part (split_fences t)" by (simp add: segment_def)
  have 2: "concat (split_fences t) = t" by (rule concat_split_fences)
  have 3: "fence_free t \<longrightarrow> split_fences t = [t]" by (simp add: split_fences_fence_free)
  have 4: "\<forall>u v f r. t = u @ v \<and> (\<forall>n<length u. match_fence (drop n t) = None) \<and>
        match_fence v = Some (f, r) \<longrightarrow>
      split_fences t = u # f # split_fences r"
    using split_fences_leftmost by blast
  have 5: "\<forall>v f r. match_fence v = Some (f, r) \<longleftrightarrow>
      (\<exists>m. f = fence @ m @ fence \<and> v = f @ r \<and>
           (\<forall>k<length m. \<not> startsWith (drop k (m @ fence @ r)) fence))"
    using match_fence_iff by blast
  have 6: "\<forall>p lang body. p \<in> set (split_fences t) \<and> p = fence @ lang @ newline # body @ fence \<and>
        list_all is_word_char lang \<and> body \<noteq> [] \<longrightarrow>
      render_part p = CodeBlock lang body \<and>
      isHtml (render_part p) = (toLowerCase lang = ''html'')"
  proof (intro allI impI)
    fix p lang body
    assume a: "p \<in> set (split_fences t) \<and> p = fence @ lang @ newline # body @ fence \<and>
        list_all is_word_char lang \<and> body \<noteq> []"
    then have p: "p = fence @ lang @ newline # body @ fence"
      and w: "\<forall>c\<in>set lang. is_word_char c" and b: "body \<noteq> []"
      by (simp_all add: list_all_iff)
    have "\<not> fence_free p"
      using fenced_not_fence_free [of "lang @ newline # body"] p by simp
    with split_fences_parts [of p t] a have cap: "match_fence p = Some (p, [])" by blast
    from render_part_fenced [OF cap p w b]
    show "render_part p = CodeBlock lang body \<and>
      isHtml (render_part p) = (toLowerCase lang = ''html'')"
      by (simp add: isHtml_def)
  qed
  from 1 2 3 4 5 6 show ?thesis by blast
qed

lemma no_backtick_no_match:
  assumes "CHR 0x60 \<notin> set u" and "n < length u"
  shows "match_fence (drop n (u @ v)) = None"
proof -
  from assms(2) have "drop n (u @ v) = (u ! n) # drop (Suc n) u @ v"
    by (simp add: Cons_nth_drop_Suc)
  moreover from assms have "u ! n \<noteq> CHR 0x60" by (metis nth_mem)
  ultimately have "\<not> startsWith (drop n (u @ v)) fence"
    using startsWith_fence_hd [of "drop n (u @ v)"] by auto
  then show ?thesis by (simp add: match_fence_def)
qed

lemma no_backtick_fence_free: "CHR 0x60 \<notin> set s \<Longrightarrow> fence_free s"
  unfolding fence_free_def
proof
  fix n
  assume a: "CHR 0x60 \<notin> set s"
  show "match_fence (drop n s) = None"
  proof (cases "n < length s")
    case True
    from no_backtick_no_match [OF a True, of "[]"] show ?thesis by simp
  next
    case False
    then show ?thesis by (simp add: match_fence_Nil)
  qed
qed

text \<open>
  The example of the specification: prose, a fenced block of HTML, prose.
\<close>

theorem segmentation_by_backtick_spans_witness:
  "example_text = (''Hello'' @ [newline]) @ example_span @ [newline] @ ''Bye'' \<and>
   match_fence (example_span @ [newline] @ ''Bye'') = Some (example_span, [newline] @ ''Bye'') \<and>
   fence_free ([newline] @ ''Bye'') \<and>
   split_fences example_text = [''Hello'' @ [newline], example_span, [newline] @ ''Bye''] \<and>
   example_span \<in> set (split_fences example_text) \<and>
   list_all is_word_char ''html'' \<and>
   render_part example_span = CodeBlock ''html'' (''<b>hi</b>'' @ [newline]) \<and>
   isHtml (render_part example_span) \<and>
   segment example_text
     = [Fragment [''Hello'', []], CodeBlock ''html'' (''<b>hi</b>'' @ [newline]),
        Fragment [[], ''Bye'']]"
proof -
  let ?u = "''Hello'' @ [newline]"
  let ?r = "[newline] @ ''Bye''"
  have h1: "example_text = ?u @ example_span @ ?r"
    by (simp add: example_text_def example_span_def)
  have "CHR 0x60 \<notin> set ?u" by (simp add: newline_def)
  then have h2: "\<forall>n<length ?u. match_fence (drop n example_text) = None"
    unfolding h1 using no_backtick_no_match by blast
  have h3: "match_fence (example_span @ ?r) = Some (example_span, ?r)"
    by (simp add: example_span_def match_fence_def startsWith_def fence_def newline_def)
  have "CHR 0x60 \<notin> set ?r" by (simp add: newline_def)
  then have h4: "fence_free ?r" by (rule no_backtick_fence_free)
  have h5: "list_all is_word_char ''html''" by (simp add: is_word_char_def)
  have h6: "toLowerCase ''html'' = ''html''" by (simp add: toLowerCase_def toLowerCase_char_def)
  note t = segmentation_by_backtick_spans [of example_text]
  note t' = segmentation_by_backtick_spans [of ?r]
  note free = t' [THEN conjunct2, THEN conjunct2, THEN conjunct1, rule_format]
  note leftmost =
    t [THEN conjunct2, THEN conjunct2, THEN conjunct2, THEN conjunct1, rule_format,
       of ?u "example_span @ ?r" example_span ?r]
  note block =
    t [THEN conjunct2, THEN conjunct2, THEN conjunct2, THEN conjunct2, THEN conjunct2,
       rule_format, of example_span "''html''" "''<b>hi</b>'' @ [newline]"]
  from free [OF h4] have s0: "split_fences ?r = [?r]" .
  from h1 h2 h3 have "split_fences example_text = ?u # example_span # split_fences ?r"
    by (intro leftmost conjI)
  with s0 have s1: "split_fences example_text = [?u, example_span, ?r]" by simp
  then have h7: "example_span \<in> set (split_fences example_text)" by simp
  have h8: "example_span = fence @ ''html'' @ newline # (''<b>hi</b>'' @ [newline]) @ fence"
    by (simp add: example_span_def)
  have h9: "''<b>hi</b>'' @ [newline] \<noteq> []" by simp
  from h7 h8 h5 h9
  have "render_part example_span = CodeBlock ''html'' (''<b>hi</b>'' @ [newline]) \<and>
        isHtml (render_part example_span) = (toLowerCase ''html'' = ''html'')"
    by (intro block conjI)
  then have c: "render_part example_span = CodeBlock ''html'' (''<b>hi</b>'' @ [newline])"
    and i: "isHtml (render_part example_span) = (toLowerCase ''html'' = ''html'')"
    by blast+
  from i h6 have i': "isHtml (render_part example_span)" by blast
  from t [THEN conjunct1] s1 c have sg: "segment example_text
     = [Fragment [''Hello'', []], CodeBlock ''html'' (''<b>hi</b>'' @ [newline]),
        Fragment [[], ''Bye'']]"
    by (simp add: render_part_def startsWith_def fence_def newline_def)
  show ?thesis
    by (intro conjI h1 h3 h4 s1 h7 h5 c i' sg)
qed

text \<open>
  Claim C1 as stated fails in three ways. The text \<open>a```b```c\<close> is split at the span
  \<open>```b```\<close>, which has no newline and so is no complete fenced block. The segment of a
  fence with the tag \<open>js\<close> and an empty content is a complete fenced block and is shown
  as preformatted raw text, and so is the segment with the tag \<open>c++\<close>, which is no run
  of word characters: neither becomes a \<open>CodeBlock\<close>.
\<close>

theorem split_pattern_counterexample:
  "split_fences (''a'' @ fence @ ''b'' @ fence @ ''c'') = [''a'', fence @ ''b'' @ fence, ''c''] \<and>
   \<not> spec_fence_pattern (fence @ ''b'' @ fence) \<and>
   segment (''a'' @ fence @ ''b'' @ fence @ ''c'')
     = [Fragment [''a''], Pre (fence @ ''b'' @ fence), Fragment [''c'']] \<and>
   spec_fence_pattern (fence @ ''js'' @ [newline] @ fence) \<and>
   segment (fence @ ''js'' @ [newline] @ fence)
     = [Fragment [[]], Pre (fence @ ''js'' @ [newline] @ fence), Fragment [[]]] \<and>
   spec_fence_pattern (fence @ ''c++'' @ [newline] @ ''x'' @ fence) \<and>
   segment (fence @ ''c++'' @ [newline] @ ''x'' @ fence)
     = [Fragment [[]], Pre (fence @ ''c++'' @ [newline] @ ''x'' @ fence), Fragment [[]]]"
  by (simp add: eval_segment spec_fence_pattern_def)

lemma fence_open_Nil: "\<not> fence_open []"
  by (simp add: fence_open.simps [of "[]"] startsWith_def fence_def)

lemma fence_open_unclosed:
  "startsWith s fence \<Longrightarrow> lazy_until_fence (drop 3 s) = None \<Longrightarrow> fence_open s"
  by (simp add: fence_open.simps [of s])

lemma fence_open_closed:
  "startsWith s fence \<Longrightarrow> lazy_until_fence (drop 3 s) = Some (m, r) \<Longrightarrow>
     fence_open s = fence_open r"
  by (simp add: fence_open.simps [of s])

lemma fence_open_Cons:
  "\<not> startsWith (c # cs) fence \<Longrightarrow> fence_open (c # cs) = fence_open cs"
  by (simp add: fence_open.simps [of "c # cs"])

lemma fence_open_Match:
  "match_fence s = Some (f, r) \<Longrightarrow> fence_open s = fence_open r"
  by (auto simp: match_fence_Some fence_open_closed)

lemma match_fence_None_cases:
  "match_fence s = None \<Longrightarrow>
     \<not> startsWith s fence \<or> (startsWith s fence \<and> lazy_until_fence (drop 3 s) = None)"
  by (auto simp: match_fence_def split: if_splits)

text \<open>
  An open fence is in the last segment of the split, which begins with the backticks only
  if the open fence is its beginning.
\<close>

lemma fence_open_trailing:
  "fence_open t \<Longrightarrow>
     \<exists>u b. last (split_fences t) = u @ fence @ b \<and> lazy_until_fence b = None \<and>
           (startsWith (u @ fence @ b) fence \<longrightarrow> u = [])"
proof (induction t rule: split_fences_cases)
  case (Match s f r)
  from Match(3) fence_open_Match [OF Match(1)] have "fence_open r" by simp
  from Match(2) [OF this] show ?case
    by (simp add: split_fences_Match [OF Match(1)] split_fences_nonempty)
next
  case Nil
  then show ?case by (simp add: fence_open_Nil)
next
  case (Cons c cs)
  from match_fence_None_cases [OF Cons(1)] show ?case
  proof
    assume n: "\<not> startsWith (c # cs) fence"
    with Cons(3) have "fence_open cs" by (simp add: fence_open_Cons)
    from Cons(2) [OF this] obtain u b where l: "last (split_fences cs) = u @ fence @ b"
      and b: "lazy_until_fence b = None"
      and u: "startsWith (u @ fence @ b) fence \<longrightarrow> u = []"
      by blast
    obtain q qs where q: "split_fences cs = q # qs"
      using split_fences_nonempty [of cs] by (cases "split_fences cs") auto
    with Cons(1) have sp: "split_fences (c # cs) = (c # q) # qs"
      by (simp add: split_fences_Cons)
    show ?thesis
    proof (cases qs)
      case Nil
      with q concat_split_fences [of cs] have qc: "q = cs" by simp
      with Nil q l have "c # cs = (c # u) @ fence @ b" by simp
      moreover from this n have "startsWith ((c # u) @ fence @ b) fence \<longrightarrow> c # u = []" by simp
      moreover from sp Nil qc have "last (split_fences (c # cs)) = c # cs" by simp
      ultimately show ?thesis using b by metis
    next
      case (Cons a list)
      with sp q have "last (split_fences (c # cs)) = last (split_fences cs)" by simp
      with l b u show ?thesis by metis
    qed
  next
    assume o: "startsWith (c # cs) fence \<and> lazy_until_fence (drop 3 (c # cs)) = None"
    then have sw: "startsWith (c # cs) fence"
      and l: "lazy_until_fence (drop 3 (c # cs)) = None" by blast+
    from split_fences_single [OF l] have "last (split_fences (c # cs)) = c # cs" by simp
    also from startsWith_fence_drop [OF sw] have "c # cs = [] @ fence @ drop 3 (c # cs)"
      by (metis append_Nil)
    finally have "last (split_fences (c # cs)) = [] @ fence @ drop 3 (c # cs)" .
    with l show ?thesis by blast
  qed
qed

text \<open>Conversely, a triple of backticks in the last segment of the split is an open fence.\<close>

lemma trailing_fence_open:
  "last (split_fences t) = u @ fence @ b \<Longrightarrow> fence_open t"
proof (induction t arbitrary: u rule: split_fences_cases)
  case (Match s f r)
  from Match(3) have "last (split_fences r) = u @ fence @ b"
    by (simp add: split_fences_Match [OF Match(1)] split_fences_nonempty)
  from Match(2) [OF this] fence_open_Match [OF Match(1)] show ?case by simp
next
  case Nil
  then show ?case by (simp add: split_fences_Nil fence_def)
next
  case (Cons c cs)
  from match_fence_None_cases [OF Cons(1)] show ?case
  proof
    assume n: "\<not> startsWith (c # cs) fence"
    obtain q qs where q: "split_fences cs = q # qs"
      using split_fences_nonempty [of cs] by (cases "split_fences cs") auto
    with Cons(1) have sp: "split_fences (c # cs) = (c # q) # qs"
      by (simp add: split_fences_Cons)
    have "\<exists>u'. last (split_fences cs) = u' @ fence @ b"
    proof (cases qs)
      case Nil
      with q concat_split_fences [of cs] have qc: "q = cs" by simp
      with sp Nil Cons(3) have e: "c # cs = u @ fence @ b" by simp
      with n have "u \<noteq> []" by (auto simp: startsWith_def)
      then obtain u' where "u = c # u'" using e by (cases u) auto
      with e have "cs = u' @ fence @ b" by simp
      with q Nil qc show ?thesis by auto
    next
      case (Cons a list)
      with sp q have "last (split_fences (c # cs)) = last (split_fences cs)" by simp
      with Cons.prems \<open>last (split_fences (c # cs)) = u @ fence @ b\<close> show ?thesis by auto
    qed
    then obtain u' where "last (split_fences cs) = u' @ fence @ b" by blast
    from Cons(2) [OF this] n show ?thesis by (simp add: fence_open_Cons)
  next
    assume "startsWith (c # cs) fence \<and> lazy_until_fence (drop 3 (c # cs)) = None"
    then show ?thesis by (simp add: fence_open_unclosed)
  qed
qed

lemma fence_open_iff:
  "fence_open t \<longleftrightarrow> (\<exists>u b. last (split_fences t) = u @ fence @ b)"
  using fence_open_trailing trailing_fence_open by blast

text \<open>
  Claim C3, as the code has it. When a text ends in an open fence, with the triples of
  backticks paired from left to right, the last segment of the split holds the opening
  triple and the text behind it, in which no further triple follows; the segment is a
  suffix of the text. The block rendered for it is never a \<open>CodeBlock\<close>; it holds the raw
  text, as one preformatted element when the segment begins with the open fence and as
  the paragraphs of its lines when prose stands before the fence. When the text grows, the
  blocks before it stay and only this segment, with the new text, is rendered again.
\<close>

theorem open_fence_stays_raw:
  assumes "fence_open t"
  shows "(\<exists>u b. last (split_fences t) = u @ fence @ b \<and> suffix (u @ fence @ b) t \<and>
            lazy_until_fence b = None \<and>
            last (segment t)
              = (if u = [] then Pre (fence @ b) else Fragment (split_lines (u @ fence @ b))) \<and>
            (\<forall>s. segment (t @ s) = butlast (segment t) @ segment (u @ fence @ b @ s))) \<and>
         (\<forall>lang body. last (segment t) \<noteq> CodeBlock lang body)"
proof -
  from fence_open_trailing [OF assms] obtain u b
    where l: "last (split_fences t) = u @ fence @ b" and b: "lazy_until_fence b = None"
      and u: "startsWith (u @ fence @ b) fence \<longrightarrow> u = []"
    by blast
  let ?l = "u @ fence @ b"
  have ff: "fence_free ?l" using last_split_fences_fence_free [of t] l by simp
  have "last (segment t) = render_part ?l"
    using l by (simp add: segment_def last_map split_fences_nonempty)
  with render_part_fence_free [OF ff]
  have r: "last (segment t) = (if startsWith ?l fence then Pre ?l else Fragment (split_lines ?l))"
    by simp
  have sw: "startsWith ?l fence \<longleftrightarrow> u = []"
    using u by (auto simp: startsWith_def)
  from r sw have 1: "last (segment t)
              = (if u = [] then Pre (fence @ b) else Fragment (split_lines (u @ fence @ b)))"
    by auto
  have "t = concat (butlast (split_fences t)) @ last (split_fences t)"
    using concat_split_fences [of t] split_fences_nonempty [of t]
    by (metis append_butlast_last_id concat.simps(1) concat.simps(2) concat_append append_Nil2)
  then have 2: "suffix ?l t" using l by (metis suffixI)
  have 3: "\<forall>s. segment (t @ s) = butlast (segment t) @ segment (u @ fence @ b @ s)"
    using segment_append [of t] l by simp
  from 1 have 4: "\<forall>lang body. last (segment t) \<noteq> CodeBlock lang body" by auto
  from l 2 b 1 3 4 show ?thesis by blast
qed

lemmas eval_fence_open = fence_open.simps startsWith_def fence_def newline_def

text \<open>
  Prose followed by an open fence.
\<close>

theorem open_fence_stays_raw_witness:
  "fence_open open_fence_text \<and>
   last (split_fences open_fence_text) = open_fence_text \<and>
   last (segment open_fence_text) = Fragment [''Hello'', fence @ ''js'', ''code''] \<and>
   (\<forall>lang body. last (segment open_fence_text) \<noteq> CodeBlock lang body)"
proof -
  have h: "fence_open open_fence_text"
    by (simp add: open_fence_text_def eval_fence_open)
  have l: "last (split_fences open_fence_text) = open_fence_text"
    by (simp add: open_fence_text_def split_fences.simps match_fence_def startsWith_def
        fence_def newline_def)
  have s: "last (segment open_fence_text) = Fragment [''Hello'', fence @ ''js'', ''code'']"
    by (simp add: open_fence_text_def eval_segment)
  from open_fence_stays_raw [OF h]
  have n: "\<forall>lang body. last (segment open_fence_text) \<noteq> CodeBlock lang body" by blast
  show ?thesis by (intro conjI h l s n)
qed

text \<open>
  Claim C3 as stated fails. A text that is just an open fence is not rendered as prose but
  as one preformatted element. And in \<open>x ``` y ```js\<close> followed by a line of code the
  two triples are paired with each other, so the triple before \<open>js\<close> opens no fence:
  it is shown in the preformatted span and the last segment begins behind it.
\<close>

theorem open_fence_counterexample:
  "fence_open (fence @ ''js'' @ [newline] @ ''code'') \<and>
   segment (fence @ ''js'' @ [newline] @ ''code'')
     = [Pre (fence @ ''js'' @ [newline] @ ''code'')] \<and>
   segment (fence @ ''js'' @ [newline] @ ''code'')
     \<noteq> [Fragment (split_lines (fence @ ''js'' @ [newline] @ ''code''))] \<and>
   \<not> fence_open (''x '' @ fence @ '' y '' @ fence @ ''js'' @ [newline] @ ''code'') \<and>
   segment (''x '' @ fence @ '' y '' @ fence @ ''js'' @ [newline] @ ''code'')
     = [Fragment [''x ''], Pre (fence @ '' y '' @ fence), Fragment [''js'', ''code'']]"
  by (simp add: eval_segment fence_open.simps)




lemma captured_not_fence_free: "match_fence g = Some (g, []) \<Longrightarrow> \<not> fence_free g"
proof
  assume a: "match_fence g = Some (g, [])" and "fence_free g"
  then have "match_fence (drop 0 g) = None" unfolding fence_free_def by blast
  with a show False by simp
qed

text \<open>
  When the last segment of the split is empty, the text is empty or its split ends with a
  captured span and the empty segment behind it.
\<close>

lemma split_fences_ends_with_fence:
  "last (split_fences a) = [] \<Longrightarrow>
     a = [] \<or> (\<exists>ps g. split_fences a = ps @ [g, []] \<and> match_fence g = Some (g, []))"
proof (induction a rule: split_fences_cases)
  case (Match s f r)
  from Match(3) have l: "last (split_fences r) = []"
    by (simp add: split_fences_Match [OF Match(1)] split_fences_nonempty)
  from Match(2) [OF l] show ?case
  proof
    assume "r = []"
    then have "split_fences s = [[]] @ [f, []]"
      by (simp add: split_fences_Match [OF Match(1)] split_fences_Nil)
    with match_fence_self [OF Match(1)] show ?thesis by blast
  next
    assume "\<exists>ps g. split_fences r = ps @ [g, []] \<and> match_fence g = Some (g, [])"
    then obtain ps g where "split_fences r = ps @ [g, []]" and g: "match_fence g = Some (g, [])"
      by blast
    then have "split_fences s = ([] # f # ps) @ [g, []]"
      by (simp add: split_fences_Match [OF Match(1)])
    with g show ?thesis by blast
  qed
next
  case Nil
  show ?case by simp
next
  case (Cons c cs)
  obtain q qs where q: "split_fences cs = q # qs"
    using split_fences_nonempty [of cs] by (cases "split_fences cs") auto
  with Cons(1) have sp: "split_fences (c # cs) = (c # q) # qs" by (simp add: split_fences_Cons)
  with Cons(3) have qs: "qs \<noteq> []" and l: "last qs = []" by (auto split: if_splits)
  with q have "last (split_fences cs) = []" by simp
  from Cons(2) [OF this] q qs obtain ps g where ps: "q # qs = ps @ [g, []]"
    and g: "match_fence g = Some (g, [])"
    by (auto simp: split_fences_Nil)
  have "ps \<noteq> []"
  proof
    assume "ps = []"
    with ps have "q = g" by simp
    with hd_split_fences_fence_free [of cs] q captured_not_fence_free [OF g] show False by simp
  qed
  then obtain ps' where "ps = q # ps'" using ps by (cases ps) auto
  with ps sp have "split_fences (c # cs) = ((c # q) # ps') @ [g, []]" by simp
  with g show ?case by blast
qed




section \<open>Properties of the edit history\<close>

lemma history_inv_empty: "history_inv empty_history"
  by (simp add: history_inv_def empty_history_def canUndo_def)

lemma history_inv_reset: "history_inv (reset img h)"
  by (simp add: history_inv_def reset_def canUndo_def)

lemma history_inv_push: "history_inv h \<Longrightarrow> history_inv (push img h)"
  by (auto simp: history_inv_def push_def canUndo_def nth_append)

lemma history_inv_undo: "history_inv h \<Longrightarrow> history_inv (undo h)"
proof (cases "canUndo h")
  case False
  assume "history_inv h"
  with False show ?thesis by (simp add: undo_def)
next
  case True
  assume inv: "history_inv h"
  from True obtain x y zs where e: "entries h = x # y # zs"
    by (cases "entries h"; cases "tl (entries h)") (auto simp: canUndo_def)
  with inv True show ?thesis
    by (simp add: history_inv_def undo_def canUndo_def nth_butlast)
qed

lemma history_inv_apply_op: "history_inv h \<Longrightarrow> history_inv (apply_op h op)"
  by (cases op) (simp_all add: history_inv_reset history_inv_push history_inv_undo)

lemma entries_reset: "entries (reset img h) = [img]"
  by (simp add: reset_def)

lemma entries_push: "entries (push img h) = entries h @ [img]"
  by (simp add: push_def)

lemma entries_undo_nonempty: "entries h \<noteq> [] \<Longrightarrow> entries (undo h) \<noteq> []"
  by (cases "entries h"; cases "tl (entries h)") (auto simp: undo_def canUndo_def)

lemma original_undo: "original (undo h) = original h"
  by (simp add: undo_def)

lemma history_ok_apply_op:
  assumes "history_ok h"
  shows "history_ok (apply_op h op)"
proof (cases op)
  case (Reset img)
  then show ?thesis by (simp add: history_ok_def history_inv_reset entries_reset)
next
  case (Push img)
  with assms show ?thesis by (simp add: history_ok_def history_inv_push entries_push)
next
  case Undo
  from assms have "entries (undo h) = [] \<longrightarrow> original (undo h) = None"
    using entries_undo_nonempty [of h] by (auto simp: history_ok_def original_undo)
  with assms Undo show ?thesis by (simp add: history_ok_def history_inv_undo)
qed

lemma history_ok_foldl: "history_ok h \<Longrightarrow> history_ok (foldl apply_op h ops)"
  by (induction ops arbitrary: h) (simp_all add: history_ok_apply_op)

lemma history_ok_reached: "history_ok (foldl apply_op empty_history ops)"
  by (rule history_ok_foldl) (simp add: history_ok_def history_inv_empty, simp add: empty_history_def)

lemma undo_noop: "\<not> canUndo h \<Longrightarrow> undo h = h"
  by (simp add: undo_def)

lemma history_ok_undo: "history_ok h \<Longrightarrow> history_ok (undo h)"
  using history_ok_apply_op [of h Undo] by simp

lemma undo_all_props:
  "history_ok h \<Longrightarrow>
     history_ok (undo_all h) \<and> \<not> canUndo (undo_all h) \<and> original (undo_all h) = original h"
proof (induction h rule: undo_all.induct)
  case (1 h)
  show ?case
  proof (cases "canUndo h")
    case True
    from "1.IH" [OF True history_ok_undo [OF "1.prems"]] True show ?thesis
      by (simp add: undo_all.simps [of h] undo_def)
  next
    case False
    with "1.prems" show ?thesis by (simp add: undo_all.simps [of h])
  qed
qed

lemma history_ok_settled:
  "history_ok h \<Longrightarrow> \<not> canUndo h \<Longrightarrow> current h = original h"
  by (cases "entries h") (auto simp: history_ok_def history_inv_def canUndo_def last_conv_nth)

lemma push_sequence:
  "entries (foldl (\<lambda>h img. push img h) h imgs) = entries h @ imgs \<and>
   (entries h \<noteq> [] \<longrightarrow> original (foldl (\<lambda>h img. push img h) h imgs) = original h) \<and>
   (imgs \<noteq> [] \<longrightarrow> current (foldl (\<lambda>h img. push img h) h imgs) = Some (last imgs))"
proof (induction imgs arbitrary: h)
  case Nil
  show ?case by simp
next
  case (Cons i imgs)
  from Cons [of "push i h"] show ?case
    by (cases imgs) (auto simp: push_def)
qed

text \<open>
  Claim C8, on the history modelled from the spec. Every history reached from the empty
  one by \<open>reset\<close>, \<open>push\<close> and \<open>undo\<close> satisfies the invariant, and each operation
  preserves it; after \<open>reset img0\<close> and any pushes the entries are \<open>img0\<close> and the pushed
  images, \<open>original\<close> is \<open>img0\<close> and \<open>current\<close> is the last pushed image (\<open>img0\<close> when
  nothing was pushed); \<open>undo\<close> changes nothing when \<open>canUndo\<close> is false; \<open>undo\<close>
  repeated until \<open>canUndo\<close> is false ends with \<open>current = original\<close>, the original
  being the one before, and a further \<open>undo\<close> changes nothing.
\<close>

theorem edit_history_invariant:
  "history_inv (foldl apply_op empty_history ops) \<and>
   (history_inv h \<longrightarrow> history_inv (apply_op h op)) \<and>
   entries (foldl (\<lambda>h img. push img h) (reset img0 h0) imgs) = img0 # imgs \<and>
   original (foldl (\<lambda>h img. push img h) (reset img0 h0) imgs) = Some img0 \<and>
   current (foldl (\<lambda>h img. push img h) (reset img0 h0) imgs) = Some (last (img0 # imgs)) \<and>
   (\<not> canUndo h \<longrightarrow> undo h = h) \<and>
   \<not> canUndo (undo_all (foldl apply_op empty_history ops)) \<and>
   current (undo_all (foldl apply_op empty_history ops))
     = original (undo_all (foldl apply_op empty_history ops)) \<and>
   original (undo_all (foldl apply_op empty_history ops))
     = original (foldl apply_op empty_history ops) \<and>
   undo (undo_all (foldl apply_op empty_history ops))
     = undo_all (foldl apply_op empty_history ops)"
proof -
  let ?r = "foldl apply_op empty_history ops"
  have ok: "history_ok ?r" by (rule history_ok_reached)
  then have 1: "history_inv ?r" by (simp add: history_ok_def)
  have 2: "history_inv h \<longrightarrow> history_inv (apply_op h op)"
    by (simp add: history_inv_apply_op)
  let ?p = "foldl (\<lambda>h img. push img h) (reset img0 h0) imgs"
  from push_sequence [of "reset img0 h0" imgs]
  have 3: "entries ?p = img0 # imgs" and 4: "original ?p = Some img0"
    and c: "imgs \<noteq> [] \<longrightarrow> current ?p = Some (last imgs)"
    by (simp_all add: reset_def)
  have 5: "current ?p = Some (last (img0 # imgs))"
    using c by (cases imgs) (simp_all add: reset_def)
  have 6: "\<not> canUndo h \<longrightarrow> undo h = h" by (simp add: undo_noop)
  from undo_all_props [OF ok]
  have u: "history_ok (undo_all ?r)" and 7: "\<not> canUndo (undo_all ?r)"
    and 9: "original (undo_all ?r) = original ?r"
    by simp_all
  from history_ok_settled [OF u 7] have 8: "current (undo_all ?r) = original (undo_all ?r)" .
  from undo_noop [OF 7] have 10: "undo (undo_all ?r) = undo_all ?r" .
  from 1 2 3 4 5 6 7 8 9 10 show ?thesis by blast
qed

text \<open>
  A reset, a push and the undo that takes it back.
\<close>

theorem edit_history_invariant_witness:
  "history_inv (reset img_a empty_history) \<and>
   history_inv (apply_op (reset img_a empty_history) (Push img_b)) \<and>
   \<not> canUndo (reset img_a empty_history) \<and>
   undo (reset img_a empty_history) = reset img_a empty_history \<and>
   current (foldl (\<lambda>h img. push img h) (reset img_a empty_history) [img_b]) = Some img_b \<and>
   current (undo_all (foldl apply_op empty_history [Reset img_a, Push img_b])) = Some img_a"
proof -
  let ?h = "reset img_a empty_history"
  let ?ops = "[Reset img_a, Push img_b]"
  note t = edit_history_invariant [of "[Reset img_a]" ?h "Push img_b" img_a empty_history "[img_b]"]
  note t' = edit_history_invariant [of ?ops ?h "Push img_b" img_a empty_history "[img_b]"]
  have h0: "foldl apply_op empty_history [Reset img_a] = ?h" by simp
  from t h0 have h1: "history_inv ?h" by simp
  with t have c1: "history_inv (apply_op ?h (Push img_b))" by blast
  have h2: "\<not> canUndo ?h" by (simp add: canUndo_def reset_def)
  with t have c2: "undo ?h = ?h" by blast
  from t have c3: "current (foldl (\<lambda>h img. push img h) ?h [img_b]) = Some (last [img_a, img_b])"
    by blast
  from t' have "current (undo_all (foldl apply_op empty_history ?ops))
                  = original (foldl apply_op empty_history ?ops)"
    by simp
  also have "\<dots> = Some img_a" by (simp add: reset_def push_def)
  finally have c4: "current (undo_all (foldl apply_op empty_history ?ops)) = Some img_a" .
  from h1 c1 h2 c2 c3 c4 show ?thesis by simp
qed

section \<open>Properties of the edit handlers\<close>

lemma current_None_iff:
  "history_inv h \<Longrightarrow> current h = None \<longleftrightarrow> \<not> isImageLoaded h"
  by (simp add: history_inv_def isImageLoaded_def)

text \<open>
  Claim C5, as the code has it. \<^verbatim>\<open>handleGenerate\<close> calls no collaborator iff the prompt
  is blank or there is no current image, and then the history is unchanged. With a blank
  prompt it returns with the state unchanged, so no error is shown; with a prompt that is
  not blank and no current image it shows the error that asks for an image. In a history
  that satisfies the invariant there is no current image iff no image is loaded.
\<close>

theorem handleGenerate_validation:
  "(snd (handleGenerate_begin st) = None
      \<longleftrightarrow> trim (prompt st) = [] \<or> current (history st) = None) \<and>
   (trim (prompt st) = [] \<longrightarrow> fst (handleGenerate_begin st) = st) \<and>
   (trim (prompt st) \<noteq> [] \<and> current (history st) = None \<longrightarrow>
      fst (handleGenerate_begin st)
        = st\<lparr>error := ''Please upload an image first to apply an edit.''\<rparr>) \<and>
   (snd (handleGenerate_begin st) = None \<longrightarrow>
      history (fst (handleGenerate_begin st)) = history st \<and>
      handleGenerate editImage st = (fst (handleGenerate_begin st), [], Fulfilled)) \<and>
   (history_inv (history st) \<longrightarrow>
      (current (history st) = None \<longleftrightarrow> \<not> isImageLoaded (history st)))"
  by (auto simp: handleGenerate_begin_def handleGenerate_def handleShowError_def
      current_None_iff split: option.splits)

lemmas eval_trim = trim_def is_space_def

text \<open>
  A prompt on the initial state, where no image is loaded.
\<close>

theorem handleGenerate_validation_witness:
  "trim (prompt (initial\<lparr>prompt := ''brighter''\<rparr>)) \<noteq> [] \<and>
   current (history (initial\<lparr>prompt := ''brighter''\<rparr>)) = None \<and>
   history_inv (history (initial\<lparr>prompt := ''brighter''\<rparr>)) \<and>
   snd (handleGenerate_begin (initial\<lparr>prompt := ''brighter''\<rparr>)) = None \<and>
   error (fst (handleGenerate_begin (initial\<lparr>prompt := ''brighter''\<rparr>)))
     = ''Please upload an image first to apply an edit.'' \<and>
   history (fst (handleGenerate_begin (initial\<lparr>prompt := ''brighter''\<rparr>))) = empty_history \<and>
   \<not> isImageLoaded (history (initial\<lparr>prompt := ''brighter''\<rparr>))"
proof -
  let ?st = "initial\<lparr>prompt := ''brighter''\<rparr>"
  have h1: "trim (prompt ?st) \<noteq> []" by (simp add: eval_trim)
  have h2: "current (history ?st) = None" by (simp add: initial_def empty_history_def)
  have h3: "history_inv (history ?st)"
    by (simp add: initial_def history_inv_def empty_history_def canUndo_def)
  have h4: "history ?st = empty_history" by (simp add: initial_def)
  from handleGenerate_validation [of ?st] h1 h2 h3
  have "snd (handleGenerate_begin ?st) = None"
    and "fst (handleGenerate_begin ?st) = ?st\<lparr>error := ''Please upload an image first to apply an edit.''\<rparr>"
    and "\<not> isImageLoaded (history ?st)"
    by blast+
  moreover from this have "error (fst (handleGenerate_begin ?st)) = ''Please upload an image first to apply an edit.''"
    and "history (fst (handleGenerate_begin ?st)) = empty_history"
    using h4 by simp_all
  ultimately show ?thesis using h1 h2 h3 by blast
qed

text \<open>
  Claim C5 as stated fails: with an image loaded and a prompt of two spaces,
  \<^verbatim>\<open>handleGenerate\<close> returns without a call and leaves the state as it is; the error
  message stays empty, so nothing is shown to the user.
\<close>

theorem blank_prompt_counterexample:
  "trim (prompt (initial\<lparr>history := reset img_a empty_history, prompt := ''  ''\<rparr>)) = [] \<and>
   handleGenerate_begin (initial\<lparr>history := reset img_a empty_history, prompt := ''  ''\<rparr>)
     = (initial\<lparr>history := reset img_a empty_history, prompt := ''  ''\<rparr>, None) \<and>
   error (fst (handleGenerate_begin (initial\<lparr>history := reset img_a empty_history, prompt := ''  ''\<rparr>))) = []"
  by (simp add: handleGenerate_begin_def eval_trim initial_def)

lemma message_or_nonempty: "d \<noteq> [] \<Longrightarrow> message_or message d \<noteq> []"
  by (simp add: message_or_def split: option.splits)

text \<open>
  What \<^verbatim>\<open>handleGenerate\<close> does when the promise of \<^verbatim>\<open>editImage\<close> settles. On success the
  returned image is pushed (the entries grow by exactly that image, which becomes the
  current one), the prompt is cleared, no error is set, and the clear-mask signal grows
  strictly as long as it is below \<open>2 ^ 53\<close>. On a rejection with a value other than
  \<^verbatim>\<open>null\<close> and \<^verbatim>\<open>undefined\<close> the history, the prompt and the signal are unchanged and
  the error shown is the message of the failure, or the fixed text when it has none; it is
  never empty. On a rejection with \<^verbatim>\<open>null\<close> or \<^verbatim>\<open>undefined\<close> only the loading flag is
  cleared: no error is shown and the promise of the handler is rejected. A call that
  \<^verbatim>\<open>handleGenerate\<close> makes carries the prompt, the current image, the mask and the draft
  mode, is the only call, and the state it waits in has the same history.
\<close>

lemma handleGenerate_settle_outcome:
  "history (fst (handleGenerate_settle (Inr editedImage) st)) = push editedImage (history st) \<and>
   entries (history (fst (handleGenerate_settle (Inr editedImage) st)))
     = entries (history st) @ [editedImage] \<and>
   current (history (fst (handleGenerate_settle (Inr editedImage) st))) = Some editedImage \<and>
   prompt (fst (handleGenerate_settle (Inr editedImage) st)) = [] \<and>
   error (fst (handleGenerate_settle (Inr editedImage) st)) = error st \<and>
   snd (handleGenerate_settle (Inr editedImage) st) = Fulfilled \<and>
   (clearMaskSignal st < 2 ^ 53 \<longrightarrow>
      clearMaskSignal st < clearMaskSignal (fst (handleGenerate_settle (Inr editedImage) st))) \<and>
   history (fst (handleGenerate_settle (Inl err) st)) = history st \<and>
   prompt (fst (handleGenerate_settle (Inl err) st)) = prompt st \<and>
   clearMaskSignal (fst (handleGenerate_settle (Inl err) st)) = clearMaskSignal st \<and>
   error (fst (handleGenerate_settle (Inl (Thrown message)) st))
     = message_or message ''An unknown error occurred during editing.'' \<and>
   error (fst (handleGenerate_settle (Inl (Thrown message)) st)) \<noteq> [] \<and>
   snd (handleGenerate_settle (Inl (Thrown message)) st) = Fulfilled \<and>
   handleGenerate_settle (Inl Nullish) st = (st\<lparr>isLoading := False\<rparr>, Rejected_TypeError) \<and>
   (\<forall>call. snd (handleGenerate_begin st) = Some call \<longrightarrow>
      handleGenerate editImage st
        = (fst (handleGenerate_settle (editImage call) (fst (handleGenerate_begin st))), [call],
           snd (handleGenerate_settle (editImage call) (fst (handleGenerate_begin st)))) \<and>
      history (fst (handleGenerate_begin st)) = history st \<and>
      clearMaskSignal (fst (handleGenerate_begin st)) = clearMaskSignal st \<and>
      Some (edit_image call) = current (history st) \<and> edit_prompt call = prompt st \<and>
      edit_mask call = maskDataUrl st \<and> edit_draft call = isDraftMode st)"
proof -
  have e: "message_or message ''An unknown error occurred during editing.'' \<noteq> []"
    by (rule message_or_nonempty) simp
  have b: "\<forall>call. snd (handleGenerate_begin st) = Some call \<longrightarrow>
      handleGenerate editImage st
        = (fst (handleGenerate_settle (editImage call) (fst (handleGenerate_begin st))), [call],
           snd (handleGenerate_settle (editImage call) (fst (handleGenerate_begin st)))) \<and>
      history (fst (handleGenerate_begin st)) = history st \<and>
      clearMaskSignal (fst (handleGenerate_begin st)) = clearMaskSignal st \<and>
      Some (edit_image call) = current (history st) \<and> edit_prompt call = prompt st \<and>
      edit_mask call = maskDataUrl st \<and> edit_draft call = isDraftMode st"
    by (auto simp: handleGenerate_begin_def handleGenerate_def handleShowError_def
        split: option.splits if_splits prod.splits)
  have s: "history (fst (handleGenerate_settle (Inr editedImage) st)) = push editedImage (history st) \<and>
   entries (history (fst (handleGenerate_settle (Inr editedImage) st)))
     = entries (history st) @ [editedImage] \<and>
   current (history (fst (handleGenerate_settle (Inr editedImage) st))) = Some editedImage \<and>
   prompt (fst (handleGenerate_settle (Inr editedImage) st)) = [] \<and>
   error (fst (handleGenerate_settle (Inr editedImage) st)) = error st \<and>
   snd (handleGenerate_settle (Inr editedImage) st) = Fulfilled \<and>
   (clearMaskSignal st < 2 ^ 53 \<longrightarrow>
      clearMaskSignal st < clearMaskSignal (fst (handleGenerate_settle (Inr editedImage) st)))"
    by (simp add: handleGenerate_settle_def push_def js_succ_def)
  have f: "history (fst (handleGenerate_settle (Inl err) st)) = history st \<and>
   prompt (fst (handleGenerate_settle (Inl err) st)) = prompt st \<and>
   clearMaskSignal (fst (handleGenerate_settle (Inl err) st)) = clearMaskSignal st"
    by (cases err) (simp_all add: handleGenerate_settle_def handleShowError_def)
  have t: "error (fst (handleGenerate_settle (Inl (Thrown message)) st))
     = message_or message ''An unknown error occurred during editing.'' \<and>
   snd (handleGenerate_settle (Inl (Thrown message)) st) = Fulfilled \<and>
   handleGenerate_settle (Inl Nullish) st = (st\<lparr>isLoading := False\<rparr>, Rejected_TypeError)"
    by (simp add: handleGenerate_settle_def handleShowError_def)
  with e have "error (fst (handleGenerate_settle (Inl (Thrown message)) st)) \<noteq> []" by simp
  with s f t b show ?thesis by blast
qed

text \<open>
  Claim C6 at the input on which the code departs from it: an image is loaded, the prompt
  is \<open>brighter\<close> and \<^verbatim>\<open>editImage\<close> rejects with \<^verbatim>\<open>undefined\<close> (or \<^verbatim>\<open>null\<close>). The
  collaborator is called once and the history is left untouched, but the \<^verbatim>\<open>catch\<close> block
  throws on \<^verbatim>\<open>err.message\<close>, so the error message stays empty (nothing is shown to the
  user) and the promise of the handler is rejected. The same run with a rejection that
  carries no message shows the fixed text, and with an image returned pushes it.
\<close>

theorem editImage_nullish_rejection_not_surfaced:
  "handleGenerate (\<lambda>call. Inl Nullish) st_loaded
     = (st_loaded\<lparr>isLoading := False,
                  loadingText := ''Applying '' @ [CHR 0x22] @ ''brighter'' @ [CHR 0x22] @ ''...''\<rparr>,
        [\<lparr>edit_prompt = ''brighter'', edit_image = img_a, edit_mask = None, edit_draft = True\<rparr>],
        Rejected_TypeError) \<and>
   error (fst (handleGenerate (\<lambda>call. Inl Nullish) st_loaded)) = [] \<and>
   entries (history (fst (handleGenerate (\<lambda>call. Inl Nullish) st_loaded))) = [img_a] \<and>
   error (fst (handleGenerate (\<lambda>call. Inl (Thrown None)) st_loaded))
     = ''An unknown error occurred during editing.'' \<and>
   entries (history (fst (handleGenerate (\<lambda>call. Inl (Thrown None)) st_loaded))) = [img_a] \<and>
   entries (history (fst (handleGenerate (\<lambda>call. Inr img_b) st_loaded))) = [img_a, img_b] \<and>
   prompt (fst (handleGenerate (\<lambda>call. Inr img_b) st_loaded)) = [] \<and>
   clearMaskSignal (fst (handleGenerate (\<lambda>call. Inr img_b) st_loaded)) = 1"
  by (simp add: handleGenerate_def handleGenerate_begin_def handleGenerate_settle_def
      handleShowError_def message_or_def st_loaded_def initial_def reset_def push_def
      js_succ_def eval_trim)

lemma MultiViewModal_four:
  "length images = 4 \<Longrightarrow>
     map fst (MultiViewModal images) = images \<and>
     map snd (MultiViewModal images)
       = [''Front View'', ''Side View'', ''Rear View'', ''Overhead View'']"
proof -
  assume "length images = 4"
  then obtain a b c d where i: "images = [a, b, c, d]"
    by (cases images; cases "tl images"; cases "tl (tl images)"; cases "tl (tl (tl images))") auto
  have "[0 ..< 4] = [0, 1, 2, Suc 2]" by (simp add: upt_rec)
  then show ?thesis
    by (simp add: i MultiViewModal_def view_caption_def)
qed

lemma history_handleGenerateMultiView_settle:
  "history (fst (handleGenerateMultiView_settle result st)) = history st"
  by (simp add: handleGenerateMultiView_settle_def handleShowError_def
      split: sum.splits js_error.splits)

text \<open>
  Claim C9. \<^verbatim>\<open>handleGenerateMultiView\<close> never changes the history; without a current
  image it returns at once, with no call and the state unchanged; with one it calls the
  collaborator once, with the prompt and the current image, and stores the list the
  collaborator returns as it is, in its order and without a check. Four images are shown
  in that order under the captions Front, Side, Rear and Overhead View.
\<close>

theorem handleGenerateMultiView_frame:
  "history (fst (handleGenerateMultiView generateMultiView st)) = history st \<and>
   history (fst (handleGenerateMultiView_begin st)) = history st \<and>
   history (fst (handleGenerateMultiView_settle result st)) = history st \<and>
   multiViewImages (fst (handleGenerateMultiView_settle (Inr images) st)) = images \<and>
   (current (history st) = None \<longrightarrow>
      handleGenerateMultiView generateMultiView st = (st, [], Fulfilled)) \<and>
   (\<forall>img. current (history st) = Some img \<longrightarrow>
      fst (snd (handleGenerateMultiView generateMultiView st))
        = [\<lparr>view_prompt = prompt st, view_image = img\<rparr>] \<and>
      (generateMultiView \<lparr>view_prompt = prompt st, view_image = img\<rparr> = Inr images \<longrightarrow>
         multiViewImages (fst (handleGenerateMultiView generateMultiView st)) = images)) \<and>
   (length images = 4 \<longrightarrow>
      map fst (MultiViewModal images) = images \<and>
      map snd (MultiViewModal images)
        = [''Front View'', ''Side View'', ''Rear View'', ''Overhead View''])"
proof -
  have 3: "history (fst (handleGenerateMultiView_settle result st)) = history st"
    by (rule history_handleGenerateMultiView_settle)
  have 2: "history (fst (handleGenerateMultiView_begin st)) = history st"
    by (simp add: handleGenerateMultiView_begin_def split: option.splits)
  have 1: "history (fst (handleGenerateMultiView generateMultiView st)) = history st"
  proof (cases "current (history st)")
    case None
    then show ?thesis
      by (simp add: handleGenerateMultiView_def handleGenerateMultiView_begin_def)
  next
    case (Some img)
    let ?st' = "st\<lparr>isLoading := True, loadingText := ''Generating professional views...''\<rparr>"
    let ?call = "\<lparr>view_prompt = prompt st, view_image = img\<rparr>"
    from Some have "fst (handleGenerateMultiView generateMultiView st)
                      = fst (handleGenerateMultiView_settle (generateMultiView ?call) ?st')"
      by (simp add: handleGenerateMultiView_def handleGenerateMultiView_begin_def
          split: prod.splits)
    with history_handleGenerateMultiView_settle [of "generateMultiView ?call" ?st']
    show ?thesis by simp
  qed
  have 4: "multiViewImages (fst (handleGenerateMultiView_settle (Inr images) st)) = images"
    by (simp add: handleGenerateMultiView_settle_def)
  have 5: "current (history st) = None \<longrightarrow>
             handleGenerateMultiView generateMultiView st = (st, [], Fulfilled)"
    by (simp add: handleGenerateMultiView_def handleGenerateMultiView_begin_def)
  have 6: "\<forall>img. current (history st) = Some img \<longrightarrow>
      fst (snd (handleGenerateMultiView generateMultiView st))
        = [\<lparr>view_prompt = prompt st, view_image = img\<rparr>] \<and>
      (generateMultiView \<lparr>view_prompt = prompt st, view_image = img\<rparr> = Inr images \<longrightarrow>
         multiViewImages (fst (handleGenerateMultiView generateMultiView st)) = images)"
    by (simp add: handleGenerateMultiView_def handleGenerateMultiView_begin_def
        handleGenerateMultiView_settle_def split: prod.splits)
  have 7: "length images = 4 \<longrightarrow>
      map fst (MultiViewModal images) = images \<and>
      map snd (MultiViewModal images)
        = [''Front View'', ''Side View'', ''Rear View'', ''Overhead View'']"
    using MultiViewModal_four by blast
  from 1 2 3 4 5 6 7 show ?thesis by blast
qed

text \<open>
  Four views for a loaded image, and the same request with no image loaded.
\<close>

theorem handleGenerateMultiView_frame_witness:
  "current (history st_loaded) = Some img_a \<and>
   length four_views = 4 \<and>
   fst (snd (handleGenerateMultiView (\<lambda>call. Inr four_views) st_loaded))
     = [\<lparr>view_prompt = ''brighter'', view_image = img_a\<rparr>] \<and>
   multiViewImages (fst (handleGenerateMultiView (\<lambda>call. Inr four_views) st_loaded)) = four_views \<and>
   map snd (MultiViewModal four_views)
     = [''Front View'', ''Side View'', ''Rear View'', ''Overhead View''] \<and>
   current (history initial) = None \<and>
   handleGenerateMultiView (\<lambda>call. Inr four_views) initial = (initial, [], Fulfilled)"
proof -
  have h1: "current (history st_loaded) = Some img_a" by (simp add: st_loaded_def reset_def)
  have h2: "length four_views = 4" by (simp add: four_views_def)
  have h3: "current (history initial) = None" by (simp add: initial_def empty_history_def)
  have p: "prompt st_loaded = ''brighter''" by (simp add: st_loaded_def)
  from handleGenerateMultiView_frame [of "\<lambda>call. Inr four_views" st_loaded _ four_views] h1 h2
  have c1: "fst (snd (handleGenerateMultiView (\<lambda>call. Inr four_views) st_loaded))
              = [\<lparr>view_prompt = prompt st_loaded, view_image = img_a\<rparr>]"
    and c2: "multiViewImages (fst (handleGenerateMultiView (\<lambda>call. Inr four_views) st_loaded)) = four_views"
    and c3: "map snd (MultiViewModal four_views)
               = [''Front View'', ''Side View'', ''Rear View'', ''Overhead View'']"
    by blast+
  from handleGenerateMultiView_frame [of "\<lambda>call. Inr four_views" initial _ four_views] h3
  have c4: "handleGenerateMultiView (\<lambda>call. Inr four_views) initial = (initial, [], Fulfilled)"
    by blast
  from h1 h2 h3 c1 [unfolded p] c2 c3 c4 show ?thesis by blast
qed

section \<open>Properties of the chat handlers\<close>

lemma set_last_rendered_snoc:
  "set_last_rendered rendered (ms @ [m]) = ms @ [m\<lparr>renderedContent := Div rendered\<rparr>]"
  by (simp add: set_last_rendered_def nth_append)

lemma set_last_rendered_length: "length (set_last_rendered rendered ms) = length ms"
  by (simp add: set_last_rendered_def)

lemma set_last_rendered_butlast:
  "butlast (set_last_rendered rendered ms) = butlast ms"
proof (cases ms rule: rev_cases)
  case Nil
  then show ?thesis by (simp add: set_last_rendered_def)
next
  case (snoc ys y)
  then show ?thesis by (simp add: set_last_rendered_snoc)
qed

text \<open>
  Claim C4, as the code has it. The loop of \<^verbatim>\<open>handleChatSubmit\<close> holds no session
  identifier: a chunk that arrives after \<^verbatim>\<open>startNewChat\<close> replaces the rendered content
  of the welcome entry by the segmentation of the text the old stream has delivered so
  far. In every state a chunk keeps the number of entries and all entries but the last
  one, and rewrites the rendered content of the last one; the session is not changed.
\<close>

theorem late_chunk_overwrites_last_entry:
  "chatMessages (startNewChat newSession st) = [welcome_entry] \<and>
   chatMessages (snd (handleChatSubmit_chunk chunk_text responseText (startNewChat newSession st)))
     = [welcome_entry\<lparr>renderedContent := Div (segment (responseText @ chunk_text))\<rparr>] \<and>
   chatSessionRef (snd (handleChatSubmit_chunk chunk_text responseText (startNewChat newSession st)))
     = Some newSession \<and>
   fst (handleChatSubmit_chunk chunk_text responseText st') = responseText @ chunk_text \<and>
   length (chatMessages (snd (handleChatSubmit_chunk chunk_text responseText st')))
     = length (chatMessages st') \<and>
   butlast (chatMessages (snd (handleChatSubmit_chunk chunk_text responseText st')))
     = butlast (chatMessages st') \<and>
   chatMessages (snd (handleChatSubmit_chunk chunk_text responseText (st'\<lparr>chatMessages := ms @ [m]\<rparr>)))
     = ms @ [m\<lparr>renderedContent := Div (segment (responseText @ chunk_text))\<rparr>]"
  by (simp add: handleChatSubmit_chunk_def startNewChat_def welcome_entry_def Let_def
      set_last_rendered_length set_last_rendered_butlast set_last_rendered_snoc
      set_last_rendered_snoc [of _ "[]", simplified])

text \<open>
  Claim C4 as stated fails: after a new chat has been started, the chunk \<open>b\<close> of the
  old stream changes the log of the new session.
\<close>

theorem late_chunk_counterexample:
  "chatMessages (snd run_before_late_chunk) = [welcome_entry] \<and>
   chatSessionRef (snd run_before_late_chunk) = Some 2 \<and>
   chatMessages (snd (handleChatSubmit_chunk ''b'' (fst run_before_late_chunk)
                        (snd run_before_late_chunk)))
     = [welcome_entry\<lparr>renderedContent := Div [Fragment [''ab'']]\<rparr>] \<and>
   chatMessages (snd (handleChatSubmit_chunk ''b'' (fst run_before_late_chunk)
                        (snd run_before_late_chunk)))
     \<noteq> chatMessages (snd run_before_late_chunk)"
  by (simp add: run_before_late_chunk_def Let_def startNewChat_def handleChatSubmit_begin_def
      handleChatSubmit_stream_def handleChatSubmit_chunk_def set_last_rendered_def welcome_entry_def
      initial_def eval_segment)

text \<open>
  Claim C7, as the code has it. When the stream fails with a value other than \<^verbatim>\<open>null\<close>
  and \<^verbatim>\<open>undefined\<close>, the \<^verbatim>\<open>catch\<close> block appends a new entry of the model with the
  fixed error paragraph; the entries already in the log, the one in progress included,
  stay as they are. The error message is shown, \<^verbatim>\<open>isThinking\<close> is cleared, the handler
  completes and the session is kept, so the next submission is sent.
\<close>

theorem stream_failure_appends_error_entry:
  "chatMessages (fst (handleChatSubmit_catch (Thrown message) st))
     = chatMessages st @ [error_entry] \<and>
   isThinking (fst (handleChatSubmit_catch (Thrown message) st)) = False \<and>
   chatSessionRef (fst (handleChatSubmit_catch (Thrown message) st)) = chatSessionRef st \<and>
   error (fst (handleChatSubmit_catch (Thrown message) st))
     = message_or message ''An error occurred in chat.'' \<and>
   snd (handleChatSubmit_catch (Thrown message) st) = Fulfilled \<and>
   (chatSessionRef st \<noteq> None \<longrightarrow>
      snd (handleChatSubmit_begin createObjectURL msg attachmentFile
             (fst (handleChatSubmit_catch (Thrown message) st)))
        = Some (the (chatSessionRef st), msg, attachmentFile))"
  by (auto simp: handleChatSubmit_catch_def handleShowError_def error_entry_def Let_def
      handleChatSubmit_begin_def)

lemma chatMessages_run_before_failure:
  "chatMessages run_before_failure =
     [welcome_entry,
      \<lparr>role = User, parts = [], renderedContent = Paragraph ''hi''\<rparr>,
      \<lparr>role = Model, parts = [], renderedContent = Div [Fragment [''a'']]\<rparr>]"
  by (simp add: run_before_failure_def Let_def startNewChat_def handleChatSubmit_begin_def
      handleChatSubmit_stream_def handleChatSubmit_chunk_def set_last_rendered_def
      welcome_entry_def initial_def eval_segment)

lemma chatSessionRef_run_before_failure: "chatSessionRef run_before_failure = Some 1"
  by (simp add: run_before_failure_def Let_def startNewChat_def handleChatSubmit_begin_def
      handleChatSubmit_stream_def handleChatSubmit_chunk_def initial_def)

text \<open>
  A stream that fails with an error without a message after its first chunk, and the next
  submission.
\<close>

theorem stream_failure_appends_error_entry_witness:
  "chatSessionRef run_before_failure \<noteq> None \<and>
   chatMessages (fst (handleChatSubmit_catch (Thrown None) run_before_failure))
     = [welcome_entry,
        \<lparr>role = User, parts = [], renderedContent = Paragraph ''hi''\<rparr>,
        \<lparr>role = Model, parts = [], renderedContent = Div [Fragment [''a'']]\<rparr>,
        error_entry] \<and>
   snd (handleChatSubmit_begin (\<lambda>f. []) ''again'' None
          (fst (handleChatSubmit_catch (Thrown None) run_before_failure)))
     = Some (1, ''again'', None)"
proof -
  have h: "chatSessionRef run_before_failure \<noteq> None"
    by (simp add: chatSessionRef_run_before_failure)
  from stream_failure_appends_error_entry
         [of None run_before_failure "\<lambda>f. []" "''again''" None] h
  have c1: "chatMessages (fst (handleChatSubmit_catch (Thrown None) run_before_failure))
              = chatMessages run_before_failure @ [error_entry]"
    and c2: "snd (handleChatSubmit_begin (\<lambda>f. []) ''again'' None
                    (fst (handleChatSubmit_catch (Thrown None) run_before_failure)))
              = Some (the (chatSessionRef run_before_failure), ''again'', None)"
    by blast+
  from h c1 c2 show ?thesis
    by (simp add: chatMessages_run_before_failure chatSessionRef_run_before_failure)
qed

text \<open>
  Claim C7 as stated fails: after the failure the entry in progress still holds the
  rendered chunk, not the error indicator, which is in a fourth entry.
\<close>

theorem stream_failure_counterexample:
  "length (chatMessages run_before_failure) = 3 \<and>
   renderedContent (chatMessages run_before_failure ! 2) = Div [Fragment [''a'']] \<and>
   length (chatMessages (fst (handleChatSubmit_catch (Thrown None) run_before_failure))) = 4 \<and>
   renderedContent
     (chatMessages (fst (handleChatSubmit_catch (Thrown None) run_before_failure)) ! 2)
     = Div [Fragment [''a'']] \<and>
   renderedContent
     (chatMessages (fst (handleChatSubmit_catch (Thrown None) run_before_failure)) ! 2)
     \<noteq> ErrorParagraph ''Sorry, I encountered an error.'' \<and>
   renderedContent
     (chatMessages (fst (handleChatSubmit_catch (Thrown None) run_before_failure)) ! 3)
     = ErrorParagraph ''Sorry, I encountered an error.''"
  by (simp add: handleChatSubmit_catch_def handleShowError_def Let_def
      chatMessages_run_before_failure)

text \<open>
  A stream that fails with \<^verbatim>\<open>null\<close> or \<^verbatim>\<open>undefined\<close>: the \<^verbatim>\<open>catch\<close> block throws on
  \<^verbatim>\<open>err.message\<close>, so the log and the error message stay as they are; \<^verbatim>\<open>finally\<close>
  clears \<^verbatim>\<open>isThinking\<close> and the promise of the handler is rejected.
\<close>

lemma handleChatSubmit_catch_nullish:
  "handleChatSubmit_catch Nullish st = (st\<lparr>isThinking := False\<rparr>, Rejected_TypeError)"
  by (simp add: handleChatSubmit_catch_def)

end
